theory Spec2Isabelle
  imports Main "HOL-Library.Word"
begin

section \<open>The custom characteristic: \<open>custom_value\<close>, \<open>read_custom\<close>, \<open>write_custom\<close>\<close>

text \<open>
  \<^verbatim>\<open>static char custom_value[512] = "Initial value";\<close>
  The backing store is an array of 512 bytes, here a list of bytes whose length is
  \<open>sizeof_custom_value\<close>. The only attribute that registers the two callbacks is the
  characteristic of \<open>fuzz_attrs\<close>, whose \<open>user_data\<close> is \<open>custom_value\<close> itself, so
  \<open>attr->user_data\<close> and \<open>custom_value\<close> name the same 512 bytes.
\<close>

definition sizeof_custom_value :: nat where
  "sizeof_custom_value = 512"

definition custom_value_init :: "8 word list" where
  "custom_value_init =
     map (\<lambda>c. of_nat (of_char c)) ''Initial value'' @ replicate (sizeof_custom_value - 13) 0"

datatype att_err = BT_ATT_ERR_INVALID_OFFSET

text \<open>\<open>memset(custom_value, 0, sizeof(custom_value))\<close>: all 512 bytes become zero.\<close>

definition memset_custom_value :: "8 word list" where
  "memset_custom_value = replicate sizeof_custom_value 0"

text \<open>
  \<open>memcpy(dst + off, src, n)\<close>: byte \<open>i\<close> of \<open>src\<close> goes to index \<open>off + i\<close> of \<open>dst\<close>, for
  \<open>i = 0, ..., n - 1\<close>. The destination keeps its size.
\<close>

definition memcpy :: "8 word list \<Rightarrow> nat \<Rightarrow> 8 word list \<Rightarrow> nat \<Rightarrow> 8 word list" where
  "memcpy dst off src n = fold (\<lambda>i d. d[off + i := src ! i]) [0..<n] dst"

text \<open>
  \<^verbatim>\<open>
  static ssize_t write_custom(conn, attr, const void *buf, uint16_t len, uint16_t offset,
                              uint8_t flags)
  {
      uint8_t *value = attr->user_data;
      if (offset == 0) {
          memset(custom_value, 0, sizeof(custom_value));
      }
      if (offset + len > sizeof(custom_value)) {
          return BT_GATT_ERR(BT_ATT_ERR_INVALID_OFFSET);
      }
      memcpy(value + offset, buf, len);
      return len;
  }
  \<close>
  \<open>offset\<close> and \<open>len\<close> are \<open>uint16_t\<close>; their sum is computed after integer promotion and
  cannot wrap, so it is the sum of the two unsigned values. The function returns the
  \<open>ssize_t\<close> result together with the new contents of \<open>custom_value\<close>. The connection
  and the write flags are not looked at.
\<close>

definition write_custom ::
  "8 word list \<Rightarrow> 16 word \<Rightarrow> 16 word \<Rightarrow> 8 word \<Rightarrow> 8 word list \<Rightarrow> (att_err + nat) \<times> 8 word list"
where
  "write_custom buf len offset flags cv =
     (let cv1 = (if offset = 0 then memset_custom_value else cv)
      in if unat offset + unat len > sizeof_custom_value
         then (Inl BT_ATT_ERR_INVALID_OFFSET, cv1)
         else (Inr (unat len), memcpy cv1 (unat offset) buf (unat len)))"

text \<open>
  Modelled from the spec: \<open>bt_gatt_attr_read\<close>, the attribute server's read helper, is
  defined in the host stack and is not among the sources. Section 4.1: the read "returns
  \<open>min(maxLen, capacity - offset)\<close> bytes starting at \<open>offset\<close>. Fails with
  \<open>InvalidOffset\<close> if \<open>offset > capacity\<close>. Side-effect-free." The result is the
  bytes placed in the caller's buffer; the \<open>ssize_t\<close> returned is their number.
\<close>

definition bt_gatt_attr_read ::
  "16 word \<Rightarrow> 16 word \<Rightarrow> 8 word list \<Rightarrow> nat \<Rightarrow> att_err + 8 word list"
where
  "bt_gatt_attr_read buf_len offset val value_len =
     (if unat offset > value_len then Inl BT_ATT_ERR_INVALID_OFFSET
      else Inr (take (min (unat buf_len) (value_len - unat offset)) (drop (unat offset) val)))"

text \<open>
  \<^verbatim>\<open>
  static ssize_t read_custom(conn, attr, void *buf, uint16_t len, uint16_t offset)
  {
      const char *value = attr->user_data;
      return bt_gatt_attr_read(conn, attr, buf, len, offset, value, sizeof(custom_value));
  }
  \<close>
  The result is paired with the contents of \<open>custom_value\<close> after the call.
\<close>

definition read_custom ::
  "16 word \<Rightarrow> 16 word \<Rightarrow> 8 word list \<Rightarrow> (att_err + 8 word list) \<times> 8 word list"
where
  "read_custom len offset cv = (bt_gatt_attr_read len offset cv sizeof_custom_value, cv)"

section \<open>Globals, kernel objects and the statements of the callbacks\<close>

text \<open>
  \<^verbatim>\<open>
  static ATOMIC_DEFINE(state, 2U);
  #define STATE_CONNECTED    1U
  #define STATE_DISCONNECTED 2U
  \<close>
  \<open>state\<close> is one atomic word; the two constants are bit numbers.
\<close>

type_synonym atomic_t = "32 word"

definition STATE_CONNECTED :: nat where
  "STATE_CONNECTED = 1"

definition STATE_DISCONNECTED :: nat where
  "STATE_DISCONNECTED = 2"

text \<open>
  Modelled from the spec: \<open>atomic_set_bit\<close> and \<open>atomic_test_and_clear_bit\<close> are kernel
  helpers declared in \<open>zephyr/sys/atomic.h\<close>, not among the sources. Section 3: the flags are
  "each independently settable and clearable"; section 4.3: the drain does an atomic
  "test-and-clear". Setting a bit leaves the other bits alone; test-and-clear returns whether
  the bit was set and clears that bit only.
\<close>

definition atomic_set_bit :: "atomic_t \<Rightarrow> nat \<Rightarrow> atomic_t" where
  "atomic_set_bit target b = set_bit b target"

definition atomic_test_and_clear_bit :: "atomic_t \<Rightarrow> nat \<Rightarrow> bool \<times> atomic_t" where
  "atomic_test_and_clear_bit target b = (bit target b, unset_bit b target)"

text \<open>
  Modelled from the spec: the counting semaphore (\<open>k_sem_init\<close>, \<open>k_sem_give\<close>,
  \<open>k_sem_take\<close> of the kernel, not among the sources). Section 5: "callback contexts set a
  flag and increment the signal; the main loop blocks on the signal". A give on a semaphore
  at its limit changes nothing; a take with \<open>K_FOREVER\<close> on a count of zero does not return
  (\<open>None\<close>: the caller stays blocked).
\<close>

record k_sem =
  count :: nat
  limit :: nat

definition k_sem_init :: "nat \<Rightarrow> nat \<Rightarrow> k_sem" where
  "k_sem_init initial_count lim = \<lparr>count = initial_count, limit = lim\<rparr>"

definition k_sem_give :: "k_sem \<Rightarrow> k_sem" where
  "k_sem_give sem = (if count sem < limit sem then sem\<lparr>count := count sem + 1\<rparr> else sem)"

definition k_sem_take :: "k_sem \<Rightarrow> k_sem option" where
  "k_sem_take sem = (if count sem = 0 then None else Some (sem\<lparr>count := count sem - 1\<rparr>))"

text \<open>
  \<^verbatim>\<open>
  static const struct bt_le_conn_param conn_parameters = {
      .interval_min = 10, .interval_max = 10, .latency = 0, .timeout = 100};
  \<close>
\<close>

record bt_le_conn_param =
  interval_min :: "16 word"
  interval_max :: "16 word"
  latency :: "16 word"
  timeout :: "16 word"

definition conn_parameters :: bt_le_conn_param where
  "conn_parameters = \<lparr>interval_min = 10, interval_max = 10, latency = 0, timeout = 100\<rparr>"

text \<open>A connection is an opaque handle of the stack.\<close>

type_synonym bt_conn = nat

text \<open>
  The statements the program executes: the calls into the kernel and the Bluetooth stack,
  the assignment to \<open>hrf_ntf_enabled\<close>, and the two attribute callbacks above, run as one
  statement each. \<open>Bt_unpair\<close> is \<open>bt_unpair(BT_ID_DEFAULT, BT_ADDR_LE_ANY)\<close>,
  \<open>Bt_le_adv_start\<close> is \<open>bt_le_adv_start(BT_LE_ADV_CONN_FAST_1, ad, ARRAY_SIZE(ad), sd,
  ARRAY_SIZE(sd))\<close>: the program makes these calls with no other arguments.
  \<open>Atomic_test_and_clear_bit b r\<close> carries the value \<open>r\<close> that the call returned.
\<close>

datatype stmt =
    Printk string
  | Atomic_set_bit nat
  | Atomic_test_and_clear_bit nat bool
  | K_sem_init nat nat
  | K_sem_give
  | K_sem_take
  | K_msleep nat
  | Assign_hrf_ntf_enabled bool
  | Call_read_custom "16 word" "16 word"
  | Call_write_custom "8 word list" "16 word" "16 word" "8 word"
  | Bt_conn_le_param_update bt_conn bt_le_conn_param
  | Bt_unpair
  | Bt_conn_get_dst bt_conn
  | Bt_addr_le_to_str
  | Bt_uuid_to_str
  | Bt_conn_auth_passkey_entry bt_conn "32 word"
  | Bt_conn_auth_passkey_confirm bt_conn
  | Bt_conn_auth_pairing_confirm bt_conn
  | Bt_enable
  | Bt_id_get
  | Bt_gatt_service_register string
  | Bt_gatt_foreach_attr
  | Bt_conn_auth_cb_register
  | Bt_hrs_cb_register
  | Bt_passkey_set "32 word"
  | Bt_le_adv_start

subsection \<open>The callbacks, statement by statement\<close>

text \<open>
  \<^verbatim>\<open>
  static void connected(struct bt_conn *conn, uint8_t err)
  {
      if (err) {
          printk("Connection failed, err 0x%02x %s\n", err, bt_hci_err_to_str(err));
      } else {
          printk("Connected\n");
          (void)atomic_set_bit(state, STATE_CONNECTED);
          bt_conn_le_param_update(conn, &conn_parameters);
      }
  }
  \<close>
\<close>

definition connected :: "bt_conn \<Rightarrow> 8 word \<Rightarrow> stmt list" where
  "connected conn err =
     (if err \<noteq> 0 then [Printk ''Connection failed, err 0x%02x %s'']
      else [Printk ''Connected'',
            Atomic_set_bit STATE_CONNECTED,
            Bt_conn_le_param_update conn conn_parameters])"

text \<open>
  \<^verbatim>\<open>
  static void disconnected(struct bt_conn *conn, uint8_t reason)
  {
      printk("Disconnected, reason 0x%02x %s\n", reason, bt_hci_err_to_str(reason));
      bt_unpair(BT_ID_DEFAULT, BT_ADDR_LE_ANY);
      (void)atomic_set_bit(state, STATE_DISCONNECTED);
      k_sem_give(&semmari);
  }
  \<close>
\<close>

definition disconnected :: "bt_conn \<Rightarrow> 8 word \<Rightarrow> stmt list" where
  "disconnected conn reason =
     [Printk ''Disconnected, reason 0x%02x %s'',
      Bt_unpair,
      Atomic_set_bit STATE_DISCONNECTED,
      K_sem_give]"

text \<open>\<^verbatim>\<open>static void hrs_ntf_changed(bool enabled) { hrf_ntf_enabled = enabled; }\<close>\<close>

definition hrs_ntf_changed :: "bool \<Rightarrow> stmt list" where
  "hrs_ntf_changed enabled = [Assign_hrf_ntf_enabled enabled]"

text \<open>
  \<^verbatim>\<open>
  static void auth_cancel(struct bt_conn *conn)
  {
      char addr[BT_ADDR_LE_STR_LEN];
      bt_addr_le_to_str(bt_conn_get_dst(conn), addr, sizeof(addr));
      printk("Pairing cancelled: %s\n", addr);
  }
  \<close>
\<close>

definition auth_cancel :: "bt_conn \<Rightarrow> stmt list" where
  "auth_cancel conn = [Bt_conn_get_dst conn, Bt_addr_le_to_str, Printk ''Pairing cancelled: %s'']"

text \<open>
  \<^verbatim>\<open>
  static void enter_passkey(struct bt_conn *conn)
  {
      printk("enter_passkey\n");
      bt_conn_auth_passkey_entry(conn, 0);
  }
  static void confirm_passkey(struct bt_conn *conn, unsigned int passkey)
  {
      printk("enter_confirm\n");
      bt_conn_auth_passkey_confirm(conn);
  }
  static void confirm_pairing(struct bt_conn *conn)
  {
      printk("pairing_confirm\n");
      bt_conn_auth_pairing_confirm(conn);
  }
  static void auth_passkey_display(struct bt_conn *conn, unsigned int passkey)
  {
      ;
  }
  \<close>
\<close>

definition enter_passkey :: "bt_conn \<Rightarrow> stmt list" where
  "enter_passkey conn = [Printk ''enter_passkey'', Bt_conn_auth_passkey_entry conn 0]"

definition confirm_passkey :: "bt_conn \<Rightarrow> 32 word \<Rightarrow> stmt list" where
  "confirm_passkey conn passkey = [Printk ''enter_confirm'', Bt_conn_auth_passkey_confirm conn]"

definition confirm_pairing :: "bt_conn \<Rightarrow> stmt list" where
  "confirm_pairing conn = [Printk ''pairing_confirm'', Bt_conn_auth_pairing_confirm conn]"

definition auth_passkey_display :: "bt_conn \<Rightarrow> 32 word \<Rightarrow> stmt list" where
  "auth_passkey_display conn passkey = []"

text \<open>\<^verbatim>\<open>static void bt_ready(int err) { k_sem_give(&semmari); }\<close>\<close>

definition bt_ready :: "int \<Rightarrow> stmt list" where
  "bt_ready err = [K_sem_give]"

text \<open>
  \<^verbatim>\<open>
  static uint8_t print_attr(const struct bt_gatt_attr *attr, uint16_t handle, void *user_data)
  {
      char uuid_str[BT_UUID_STR_LEN];
      k_msleep(50);
      bt_uuid_to_str(attr->uuid, uuid_str, sizeof(uuid_str));
      printk("H: 0x%04x, U: %s\n", handle, uuid_str);
      return BT_GATT_ITER_CONTINUE;
  }
  \<close>
  It always asks the iteration to go on.
\<close>

definition print_attr :: "stmt list" where
  "print_attr = [K_msleep 50, Bt_uuid_to_str, Printk ''H: 0x%04x, U: %s'']"

section \<open>The system: the main thread and the callback context\<close>

text \<open>
  Section 5 of the specification: one application thread and one context of the stack that
  invokes the callbacks, which are serialised. A state holds the globals of \<open>main.c\<close>,
  where the main thread stands, the statements the running callback has still to execute,
  and the trace: every statement executed so far, oldest first, with the context that
  executed it.
\<close>

datatype ctx = In_main | In_callback

datatype main_pc =
    Main_init
  | Main_enable
  | Main_wait
  | Main_setup
  | Main_foreach
  | Main_adv
  | Loop_take
  | Loop_test
  | Loop_adv
  | Exited int

record sys =
  state :: atomic_t
  semmari :: k_sem
  hrf_ntf_enabled :: bool
  custom_value :: "8 word list"
  main_pc :: main_pc
  cb_pending :: "stmt list"
  trace :: "(ctx \<times> stmt) list"

text \<open>What a statement does to the globals. Calls into the stack change none of them.\<close>

fun effect :: "stmt \<Rightarrow> sys \<Rightarrow> sys" where
  "effect (Atomic_set_bit b) s = s\<lparr>state := atomic_set_bit (state s) b\<rparr>"
| "effect (Atomic_test_and_clear_bit b r) s =
     s\<lparr>state := snd (atomic_test_and_clear_bit (state s) b)\<rparr>"
| "effect (K_sem_init c l) s = s\<lparr>semmari := k_sem_init c l\<rparr>"
| "effect K_sem_give s = s\<lparr>semmari := k_sem_give (semmari s)\<rparr>"
| "effect K_sem_take s =
     (case k_sem_take (semmari s) of None \<Rightarrow> s | Some sem \<Rightarrow> s\<lparr>semmari := sem\<rparr>)"
| "effect (Assign_hrf_ntf_enabled e) s = s\<lparr>hrf_ntf_enabled := e\<rparr>"
| "effect (Call_read_custom len offset) s =
     s\<lparr>custom_value := snd (read_custom len offset (custom_value s))\<rparr>"
| "effect (Call_write_custom buf len offset flags) s =
     s\<lparr>custom_value := snd (write_custom buf len offset flags (custom_value s))\<rparr>"
| "effect _ s = s"

definition exec :: "ctx \<Rightarrow> stmt \<Rightarrow> sys \<Rightarrow> sys" where
  "exec c st s = (effect st s)\<lparr>trace := trace s @ [(c, st)]\<rparr>"

definition run_stmts :: "ctx \<Rightarrow> stmt list \<Rightarrow> sys \<Rightarrow> sys" where
  "run_stmts c sts s = fold (exec c) sts s"

text \<open>
  \<^verbatim>\<open>
  int main(void)
  {
      int err;
      k_sem_init(&semmari, 0, 1);
      err = bt_enable(bt_ready);
      if (err) { return 0; }
      k_sem_take(&semmari, K_FOREVER);
      err = bt_unpair(BT_ID_DEFAULT, BT_ADDR_LE_ANY);
      if (err) { printk("Failed to unpair devices (err %d)\n", err); }
      ...
      bt_id_get(&addr, &count);
      bt_addr_le_to_str(&addr, addr_str, sizeof(addr_str));
      printk("Addr : %s\n", addr_str);
      k_msleep(100);
      bt_gatt_service_register(&fuzz_service);
      bt_gatt_service_register(&service_inclusion_service);
      bt_gatt_foreach_attr(0x0001, 0xffff, print_attr, NULL);
      bt_conn_auth_cb_register(&auth_cb);
      bt_hrs_cb_register(&hrs_cb);
      bt_passkey_set(0);
      printk("Starting Legacy Advertising (connectable and scannable)\n");
      err = bt_le_adv_start(BT_LE_ADV_CONN_FAST_1, ad, ARRAY_SIZE(ad), sd, ARRAY_SIZE(sd));
      if (err) { printk("Advertising failed to start (err %d)\n", err); return 0; }
      printk("Advertising successfully started\n");
      while (1) {
          k_sem_take(&semmari, K_FOREVER);
          if (atomic_test_and_clear_bit(state, STATE_DISCONNECTED)) {
              printk("Starting Legacy Advertising (connectable and scannable)\n");
              err = bt_le_adv_start(BT_LE_ADV_CONN_FAST_1, ad, ARRAY_SIZE(ad), sd,
                                    ARRAY_SIZE(sd));
              if (err) { printk("Advertising failed to start (err %d)\n", err); return 0; }
          }
      }
      return 0;
  }
  \<close>
  One step of the main thread executes the statements up to and including the next one
  that touches \<open>semmari\<close> or \<open>state\<close> or whose result decides a branch. The argument \<open>r\<close>
  is what the stack answers in that step: the error code returned by \<open>bt_enable\<close>,
  \<open>bt_unpair\<close> or \<open>bt_le_adv_start\<close>, and for \<open>bt_gatt_foreach_attr\<close> the number of
  attributes it visits, calling \<open>print_attr\<close> on each. The step is \<open>None\<close> where the
  thread cannot go on: blocked in \<open>k_sem_take\<close>, or returned from \<open>main\<close>. The
  \<open>return 0\<close> after the loop is never reached and has no step.
\<close>

definition main_step :: "int \<Rightarrow> sys \<Rightarrow> sys option" where
  "main_step r s =
     (case main_pc s of
        Main_init \<Rightarrow> Some ((exec In_main (K_sem_init 0 1) s)\<lparr>main_pc := Main_enable\<rparr>)
      | Main_enable \<Rightarrow>
          Some ((exec In_main Bt_enable s)\<lparr>main_pc := (if r \<noteq> 0 then Exited 0 else Main_wait)\<rparr>)
      | Main_wait \<Rightarrow>
          (case k_sem_take (semmari s) of
             None \<Rightarrow> None
           | Some sem \<Rightarrow> Some ((exec In_main K_sem_take s)\<lparr>main_pc := Main_setup\<rparr>))
      | Main_setup \<Rightarrow>
          Some ((run_stmts In_main
                  ([Bt_unpair]
                   @ (if r \<noteq> 0 then [Printk ''Failed to unpair devices (err %d)''] else [])
                   @ [Bt_id_get, Bt_addr_le_to_str, Printk ''Addr : %s'', K_msleep 100,
                      Bt_gatt_service_register ''fuzz_service'',
                      Bt_gatt_service_register ''service_inclusion_service'']) s)
                \<lparr>main_pc := Main_foreach\<rparr>)
      | Main_foreach \<Rightarrow>
          Some ((run_stmts In_main
                  ([Bt_gatt_foreach_attr]
                   @ concat (replicate (nat r) print_attr)
                   @ [Bt_conn_auth_cb_register, Bt_hrs_cb_register, Bt_passkey_set 0,
                      Printk ''Starting Legacy Advertising (connectable and scannable)'']) s)
                \<lparr>main_pc := Main_adv\<rparr>)
      | Main_adv \<Rightarrow>
          (if r \<noteq> 0
           then Some ((run_stmts In_main
                        [Bt_le_adv_start, Printk ''Advertising failed to start (err %d)''] s)
                      \<lparr>main_pc := Exited 0\<rparr>)
           else Some ((run_stmts In_main
                        [Bt_le_adv_start, Printk ''Advertising successfully started''] s)
                      \<lparr>main_pc := Loop_take\<rparr>))
      | Loop_take \<Rightarrow>
          (case k_sem_take (semmari s) of
             None \<Rightarrow> None
           | Some sem \<Rightarrow> Some ((exec In_main K_sem_take s)\<lparr>main_pc := Loop_test\<rparr>))
      | Loop_test \<Rightarrow>
          (let was_set = fst (atomic_test_and_clear_bit (state s) STATE_DISCONNECTED);
               s1 = exec In_main (Atomic_test_and_clear_bit STATE_DISCONNECTED was_set) s
           in if was_set
              then Some ((exec In_main
                           (Printk ''Starting Legacy Advertising (connectable and scannable)'') s1)
                         \<lparr>main_pc := Loop_adv\<rparr>)
              else Some (s1\<lparr>main_pc := Loop_take\<rparr>))
      | Loop_adv \<Rightarrow>
          (if r \<noteq> 0
           then Some ((run_stmts In_main
                        [Bt_le_adv_start, Printk ''Advertising failed to start (err %d)''] s)
                      \<lparr>main_pc := Exited 0\<rparr>)
           else Some ((exec In_main Bt_le_adv_start s)\<lparr>main_pc := Loop_take\<rparr>))
      | Exited c \<Rightarrow> None)"

text \<open>
  The callbacks the stack can invoke (\<open>conn_callbacks\<close>, \<open>hrs_cb\<close>, \<open>auth_cb\<close>, the
  characteristic of \<open>fuzz_attrs\<close>, and the \<open>bt_ready\<close> passed to \<open>bt_enable\<close>), with their
  arguments, and the statements each one executes.
\<close>

datatype callback =
    Connected bt_conn "8 word"
  | Disconnected bt_conn "8 word"
  | Hrs_ntf_changed bool
  | Auth_cancel bt_conn
  | Confirm_passkey bt_conn "32 word"
  | Enter_passkey bt_conn
  | Confirm_pairing bt_conn
  | Auth_passkey_display bt_conn "32 word"
  | Read_custom "16 word" "16 word"
  | Write_custom "8 word list" "16 word" "16 word" "8 word"
  | Bt_ready int

fun body :: "callback \<Rightarrow> stmt list" where
  "body (Connected conn err) = connected conn err"
| "body (Disconnected conn reason) = disconnected conn reason"
| "body (Hrs_ntf_changed enabled) = hrs_ntf_changed enabled"
| "body (Auth_cancel conn) = auth_cancel conn"
| "body (Confirm_passkey conn passkey) = confirm_passkey conn passkey"
| "body (Enter_passkey conn) = enter_passkey conn"
| "body (Confirm_pairing conn) = confirm_pairing conn"
| "body (Auth_passkey_display conn passkey) = auth_passkey_display conn passkey"
| "body (Read_custom len offset) = [Call_read_custom len offset]"
| "body (Write_custom buf len offset flags) = [Call_write_custom buf len offset flags]"
| "body (Bt_ready err) = bt_ready err"

text \<open>
  A schedule is a list of actions: the main thread executes its next step (\<open>Main r\<close>, with
  the stack's answer \<open>r\<close>), the stack invokes a callback (\<open>Invoke\<close>, when no callback is
  running), or the running callback executes its next statement (\<open>Cb\<close>). An action that is
  not possible in a state (the main thread blocked or returned, a callback invoked while
  another runs, no callback running) leaves the state as it is. All interleavings of
  the two contexts, statement by statement, are schedules.
\<close>

datatype action = Main int | Invoke callback | Cb

fun step :: "action \<Rightarrow> sys \<Rightarrow> sys" where
  "step (Main r) s = (case main_step r s of None \<Rightarrow> s | Some s' \<Rightarrow> s')"
| "step (Invoke h) s = (if cb_pending s = [] then s\<lparr>cb_pending := body h\<rparr> else s)"
| "step Cb s =
     (case cb_pending s of
        [] \<Rightarrow> s
      | st # rest \<Rightarrow> (exec In_callback st s)\<lparr>cb_pending := rest\<rparr>)"

definition run :: "action list \<Rightarrow> sys \<Rightarrow> sys" where
  "run sch s = fold step sch s"

text \<open>A callback invoked and run to its end, with nothing in between.\<close>

definition deliver :: "callback \<Rightarrow> action list" where
  "deliver h = Invoke h # replicate (length (body h)) Cb"

text \<open>
  The state when \<open>main\<close> is entered: the statics are zero-initialised, \<open>custom_value\<close> holds
  its initialiser, nothing has been executed.
\<close>

definition boot :: sys where
  "boot = \<lparr>state = 0, semmari = \<lparr>count = 0, limit = 0\<rparr>, hrf_ntf_enabled = False,
           custom_value = custom_value_init, main_pc = Main_init, cb_pending = [],
           trace = []\<rparr>"

text \<open>How often a context has executed a statement so far.\<close>

definition calls :: "ctx \<Rightarrow> stmt \<Rightarrow> sys \<Rightarrow> nat" where
  "calls c st s = count_list (trace s) (c, st)"

text \<open>The statements executed between an earlier state and a later one.\<close>

definition executed_since :: "sys \<Rightarrow> sys \<Rightarrow> (ctx \<times> stmt) list" where
  "executed_since s s' = drop (length (trace s)) (trace s')"

text \<open>
  Schedules and counters used in the statements below: a list of disconnect events, each
  delivered in full; a bring-up in which \<open>bt_enable\<close> succeeds and \<open>bt_ready\<close> is called,
  \<open>bt_unpair\<close> returns \<open>u\<close>, the attribute iteration visits \<open>n\<close> attributes and the first
  \<open>bt_le_adv_start\<close> returns \<open>e\<close>; the number of drains of the main loop that found
  \<open>STATE_DISCONNECTED\<close> set.
\<close>

definition disconnects :: "(bt_conn \<times> 8 word) list \<Rightarrow> action list" where
  "disconnects ds = concat (map (\<lambda>d. deliver (Disconnected (fst d) (snd d))) ds)"

definition bring_up :: "int \<Rightarrow> int \<Rightarrow> int \<Rightarrow> action list" where
  "bring_up u n e = [Main 0, Main 0] @ deliver (Bt_ready 0) @ [Main 0, Main u, Main n, Main e]"

definition drained :: "sys \<Rightarrow> nat" where
  "drained s = calls In_main (Atomic_test_and_clear_bit STATE_DISCONNECTED True) s"

section \<open>Predicates for the invariants\<close>

text \<open>
  Statements without effect on the globals; the statements a callback may contain (no
  test-and-clear, no \<open>k_sem_init\<close>, no \<open>k_sem_take\<close>); in the statements a callback has
  still to execute, a set of \<open>STATE_DISCONNECTED\<close> is followed by no \<open>bt_unpair\<close> and no
  second set.
\<close>

fun pure_call :: "stmt \<Rightarrow> bool" where
  "pure_call (Atomic_set_bit b) = False"
| "pure_call (Atomic_test_and_clear_bit b r) = False"
| "pure_call (K_sem_init c l) = False"
| "pure_call K_sem_give = False"
| "pure_call K_sem_take = False"
| "pure_call (Assign_hrf_ntf_enabled e) = False"
| "pure_call (Call_read_custom len offset) = False"
| "pure_call (Call_write_custom buf len offset flags) = False"
| "pure_call _ = True"

fun handler_stmt :: "stmt \<Rightarrow> bool" where
  "handler_stmt (Atomic_test_and_clear_bit b r) = False"
| "handler_stmt (K_sem_init c l) = False"
| "handler_stmt K_sem_take = False"
| "handler_stmt _ = True"

fun disc_ok :: "stmt list \<Rightarrow> bool" where
  "disc_ok [] = True"
| "disc_ok (st # p) =
     ((if st = Atomic_set_bit STATE_DISCONNECTED then Bt_unpair \<notin> set p \<and> st \<notin> set p else True)
      \<and> disc_ok p)"

definition owed :: "stmt list \<Rightarrow> nat" where
  "owed p = (if Atomic_set_bit STATE_DISCONNECTED \<in> set p \<and> Bt_unpair \<notin> set p then 1 else 0)"

definition pending_ok :: "sys \<Rightarrow> bool" where
  "pending_ok s = (list_all handler_stmt (cb_pending s) \<and> disc_ok (cb_pending s))"

text \<open>
  Once \<open>k_sem_init\<close> has run, \<open>semmari\<close> has limit 1 and a count of at most 1.
\<close>

definition sem_ok :: "sys \<Rightarrow> bool" where
  "sem_ok s = (main_pc s = Main_init \<or> (limit (semmari s) = 1 \<and> count (semmari s) \<le> 1))"

text \<open>
  The callback context has set \<open>STATE_DISCONNECTED\<close> at most as often as it has called
  \<open>bt_unpair\<close>, counting a set that is due with no unpair before it.
\<close>

definition unpair_first :: "sys \<Rightarrow> bool" where
  "unpair_first s =
     (calls In_callback (Atomic_set_bit STATE_DISCONNECTED) s + owed (cb_pending s)
        \<le> calls In_callback Bt_unpair s)"

text \<open>
  Advertising starts of the main thread against sets of the flag: the flag is set only if
  it has been set by a callback, and the starts made, the start that is due and the flag
  that is pending do not exceed the sets by more than the one start of the bring-up.
\<close>

definition before_adv :: "main_pc \<Rightarrow> bool" where
  "before_adv pc = (pc = Main_init \<or> pc = Main_enable \<or> pc = Main_wait \<or> pc = Main_setup \<or>
                    pc = Main_foreach \<or> pc = Main_adv)"

definition flag_first :: "sys \<Rightarrow> bool" where
  "flag_first s =
     ((if bit (state s) STATE_DISCONNECTED then 1 else 0)
        \<le> calls In_callback (Atomic_set_bit STATE_DISCONNECTED) s \<and>
      calls In_main Bt_le_adv_start s + (if main_pc s = Loop_adv then 1 else 0)
        + (if bit (state s) STATE_DISCONNECTED then 1 else (0::nat))
        \<le> calls In_callback (Atomic_set_bit STATE_DISCONNECTED) s + 1 \<and>
      (if before_adv (main_pc s) then calls In_main Bt_le_adv_start s = 0 else True))"

text \<open>
  Advertising starts against drains: inside the loop, one start for the bring-up and one
  for each drain that found the flag set.
\<close>

definition restart_per_drain :: "sys \<Rightarrow> bool" where
  "restart_per_drain s =
     (case main_pc s of
        Loop_take \<Rightarrow> calls In_main Bt_le_adv_start s = drained s + 1
      | Loop_test \<Rightarrow> calls In_main Bt_le_adv_start s = drained s + 1
      | Loop_adv \<Rightarrow> calls In_main Bt_le_adv_start s = drained s
      | Exited c \<Rightarrow> calls In_main Bt_le_adv_start s \<le> drained s + 1
      | _ \<Rightarrow> calls In_main Bt_le_adv_start s = 0 \<and> drained s = 0)"

text \<open>
  The main thread is in its loop, before \<open>k_sem_take\<close> or before the test-and-clear, and
  no callback is running; a disconnect has set the flag and given the semaphore; the
  part of a state the loop depends on.
\<close>

definition in_loop :: "sys \<Rightarrow> bool" where
  "in_loop s = ((main_pc s = Loop_take \<or> main_pc s = Loop_test) \<and> cb_pending s = [] \<and>
                limit (semmari s) = 1 \<and> count (semmari s) \<le> 1)"

definition signalled :: "sys \<Rightarrow> bool" where
  "signalled s = (bit (state s) STATE_DISCONNECTED \<and> count (semmari s) = 1)"

definition loop_view :: "sys \<Rightarrow> main_pc \<times> bool \<times> nat \<times> nat" where
  "loop_view s = (main_pc s, bit (state s) STATE_DISCONNECTED, count (semmari s),
                  calls In_main Bt_le_adv_start s)"

section \<open>Properties of the attribute store\<close>

lemma length_memcpy: "length (memcpy dst off src n) = length dst"
  unfolding memcpy_def by (induction n) simp_all

lemma nth_memcpy:
  "j < length dst \<Longrightarrow>
   memcpy dst off src n ! j = (if off \<le> j \<and> j < off + n then src ! (j - off) else dst ! j)"
  unfolding memcpy_def
proof (induction n)
  case 0
  then show ?case by auto
next
  case (Suc n)
  have len: "length (fold (\<lambda>i d. d[off + i := src ! i]) [0..<n] dst) = length dst"
    using length_memcpy [of dst off src n] by (simp add: memcpy_def)
  show ?case
  proof (cases "j = off + n")
    case True
    with Suc.prems len show ?thesis by simp
  next
    case False
    with Suc show ?thesis by (auto simp: nth_list_update)
  qed
qed

lemma memcpy_take_drop:
  assumes "off + n \<le> length dst" and "n \<le> length src"
  shows "memcpy dst off src n = take off dst @ take n src @ drop (off + n) dst"
proof (rule nth_equalityI)
  show "length (memcpy dst off src n) = length (take off dst @ take n src @ drop (off + n) dst)"
    using assms by (simp add: length_memcpy)
next
  fix j
  assume "j < length (memcpy dst off src n)"
  then have j: "j < length dst" by (simp add: length_memcpy)
  show "memcpy dst off src n ! j = (take off dst @ take n src @ drop (off + n) dst) ! j"
  proof -
    consider "j < off" | "off \<le> j" "j < off + n" | "off + n \<le> j" by linarith
    then show ?thesis
    proof cases
      case 1
      with j assms show ?thesis by (simp add: nth_memcpy nth_append)
    next
      case 2
      then have "j - off < n" by linarith
      with 2 j assms show ?thesis by (simp add: nth_memcpy nth_append)
    next
      case 3
      then have "\<not> j - off < n" and "off + n + (j - off - n) = j" by linarith+
      with 3 j assms show ?thesis by (simp add: nth_memcpy nth_append)
    qed
  qed
qed

lemma write_custom_at_zero:
  assumes "length buf = unat len" and "unat len \<le> sizeof_custom_value"
  shows "write_custom buf len 0 flags cv =
           (Inr (unat len), buf @ replicate (sizeof_custom_value - unat len) 0)"
proof -
  have "memcpy memset_custom_value 0 buf (unat len) =
          take 0 memset_custom_value @ take (unat len) buf @ drop (0 + unat len) memset_custom_value"
    using assms by (intro memcpy_take_drop) (simp_all add: memset_custom_value_def)
  then have "memcpy memset_custom_value 0 buf (unat len) =
          buf @ replicate (sizeof_custom_value - unat len) 0"
    using assms by (simp add: memset_custom_value_def)
  then show ?thesis
    using assms by (simp add: write_custom_def)
qed

text \<open>
  C1, as the code has it. A write with \<open>offset + len > 512\<close> fails with
  \<open>BT_ATT_ERR_INVALID_OFFSET\<close>. The \<open>memset\<close> for \<open>offset == 0\<close> stands before the bound
  check, so the failed call leaves \<open>custom_value\<close> unchanged when \<open>offset\<close> is not zero, and
  leaves it all zero when \<open>offset\<close> is zero.
\<close>

theorem write_custom_out_of_range:
  assumes "unat offset + unat len > sizeof_custom_value"
  shows "write_custom buf len offset flags cv =
           (Inl BT_ATT_ERR_INVALID_OFFSET,
            if offset = 0 then replicate sizeof_custom_value 0 else cv)"
  using assms by (simp add: write_custom_def memset_custom_value_def)

theorem write_custom_out_of_range_witness:
  "unat (500 :: 16 word) + unat (20 :: 16 word) > sizeof_custom_value \<and>
   write_custom (replicate 20 7) 20 500 0 custom_value_init =
     (Inl BT_ATT_ERR_INVALID_OFFSET, custom_value_init)"
proof -
  have h: "unat (500 :: 16 word) + unat (20 :: 16 word) > sizeof_custom_value"
    by (simp add: sizeof_custom_value_def)
  show ?thesis
    using h write_custom_out_of_range [OF h, of "replicate 20 7" 0 custom_value_init] by simp
qed

text \<open>
  C1, as the claim states it, fails: a write of 513 bytes at offset 0 on the initial buffer
  is out of range and fails with \<open>BT_ATT_ERR_INVALID_OFFSET\<close>, but the buffer is not what
  it was: "Initial value" has been zeroed.
\<close>

theorem write_custom_failed_zero_offset_counterexample:
  "unat (0 :: 16 word) + unat (513 :: 16 word) > sizeof_custom_value \<and>
   fst (write_custom (replicate 513 1) 513 0 0 custom_value_init) = Inl BT_ATT_ERR_INVALID_OFFSET \<and>
   snd (write_custom (replicate 513 1) 513 0 0 custom_value_init) \<noteq> custom_value_init"
proof -
  have a: "hd custom_value_init = 73"
    by (simp add: custom_value_init_def)
  have b: "hd (snd (write_custom (replicate 513 1) 513 0 0 custom_value_init)) = 0"
    by (simp add: write_custom_def memset_custom_value_def sizeof_custom_value_def)
  have "snd (write_custom (replicate 513 1) 513 0 0 custom_value_init) \<noteq> custom_value_init"
    using a b by auto
  then show ?thesis
    by (simp add: write_custom_def sizeof_custom_value_def)
qed

text \<open>
  C2. On the 512-byte buffer, for \<open>offset \<le> 512\<close> and data of \<open>len\<close> bytes with
  \<open>offset + len \<le> 512\<close>, the write succeeds, returning \<open>len\<close>, and a read of \<open>len\<close> bytes
  at \<open>offset\<close> afterwards returns exactly the data written.
\<close>

theorem write_then_read_returns_data:
  assumes "length cv = sizeof_custom_value"
    and "length buf = unat len"
    and "unat offset \<le> sizeof_custom_value"
    and "unat offset + unat len \<le> sizeof_custom_value"
  shows "fst (write_custom buf len offset flags cv) = Inr (unat len) \<and>
         fst (read_custom len offset (snd (write_custom buf len offset flags cv))) = Inr buf"
proof -
  define cv1 where "cv1 = (if offset = 0 then memset_custom_value else cv)"
  have len1: "length cv1 = sizeof_custom_value"
    using assms(1) by (simp add: cv1_def memset_custom_value_def)
  have w: "write_custom buf len offset flags cv =
             (Inr (unat len), memcpy cv1 (unat offset) buf (unat len))"
    using assms(4) by (simp add: write_custom_def cv1_def Let_def)
  have m: "memcpy cv1 (unat offset) buf (unat len) =
             take (unat offset) cv1 @ buf @ drop (unat offset + unat len) cv1"
    using memcpy_take_drop [of "unat offset" "unat len" cv1 buf] assms(2,4) len1 by simp
  have "take (unat len) (drop (unat offset) (memcpy cv1 (unat offset) buf (unat len))) = buf"
    using assms(2,4) len1 by (simp add: m)
  moreover have "min (unat len) (sizeof_custom_value - unat offset) = unat len"
    using assms(4) by simp
  ultimately show ?thesis
    using assms(3) by (simp add: w read_custom_def bt_gatt_attr_read_def)
qed

theorem write_then_read_returns_data_witness:
  "length custom_value_init = sizeof_custom_value \<and>
   length [1, 2, 3 :: 8 word] = unat (3 :: 16 word) \<and>
   unat (509 :: 16 word) \<le> sizeof_custom_value \<and>
   unat (509 :: 16 word) + unat (3 :: 16 word) \<le> sizeof_custom_value \<and>
   fst (write_custom [1, 2, 3] 3 509 0 custom_value_init) = Inr (unat (3 :: 16 word)) \<and>
   fst (read_custom 3 509 (snd (write_custom [1, 2, 3] 3 509 0 custom_value_init))) = Inr [1, 2, 3]"
proof -
  have h1: "length custom_value_init = sizeof_custom_value"
    by (simp add: custom_value_init_def sizeof_custom_value_def)
  have h2: "length [1, 2, 3 :: 8 word] = unat (3 :: 16 word)" by simp
  have h3: "unat (509 :: 16 word) \<le> sizeof_custom_value" by (simp add: sizeof_custom_value_def)
  have h4: "unat (509 :: 16 word) + unat (3 :: 16 word) \<le> sizeof_custom_value"
    by (simp add: sizeof_custom_value_def)
  show ?thesis
    using h1 h2 h3 h4 write_then_read_returns_data [OF h1 h2 h3 h4, of 0] by simp
qed

text \<open>
  C3. A successful write at offset 0 leaves the data followed by zeros up to 512 bytes,
  whatever the buffer held before. So after a write of 64 bytes at offset 0 and then a
  write of 10 bytes at offset 0, a read of 10 bytes at offset 20 returns 10 zero bytes.
\<close>

theorem zero_offset_write_clears_old_tail:
  "(length buf = unat len \<and> unat len \<le> sizeof_custom_value \<longrightarrow>
      write_custom buf len 0 flags cv =
        (Inr (unat len), buf @ replicate (sizeof_custom_value - unat len) 0)) \<and>
   (length d64 = 64 \<and> length d10 = 10 \<longrightarrow>
      fst (read_custom 10 20
            (snd (write_custom d10 10 0 flags2
                   (snd (write_custom d64 64 0 flags1 cv))))) = Inr (replicate 10 0))"
proof (intro conjI impI)
  assume "length buf = unat len \<and> unat len \<le> sizeof_custom_value"
  then show "write_custom buf len 0 flags cv =
        (Inr (unat len), buf @ replicate (sizeof_custom_value - unat len) 0)"
    by (simp add: write_custom_at_zero)
next
  assume a: "length d64 = 64 \<and> length d10 = 10"
  have w: "snd (write_custom d10 10 0 flags2 (snd (write_custom d64 64 0 flags1 cv))) =
             d10 @ replicate 502 0"
    using a write_custom_at_zero [of d10 10 flags2] by (simp add: sizeof_custom_value_def)
  have "take 10 (drop 20 (d10 @ replicate 502 (0 :: 8 word))) = replicate 10 0"
    using a by simp
  then show "fst (read_custom 10 20
            (snd (write_custom d10 10 0 flags2
                   (snd (write_custom d64 64 0 flags1 cv))))) = Inr (replicate 10 0)"
    by (simp add: w read_custom_def bt_gatt_attr_read_def sizeof_custom_value_def)
qed

theorem zero_offset_write_clears_old_tail_witness:
  "length [5, 6 :: 8 word] = unat (2 :: 16 word) \<and> unat (2 :: 16 word) \<le> sizeof_custom_value \<and>
   write_custom [5, 6] 2 0 0 custom_value_init =
     (Inr (unat (2 :: 16 word)), [5, 6] @ replicate (sizeof_custom_value - unat (2 :: 16 word)) 0) \<and>
   length (replicate 64 (170 :: 8 word)) = 64 \<and> length (replicate 10 (187 :: 8 word)) = 10 \<and>
   fst (read_custom 10 20
         (snd (write_custom (replicate 10 187) 10 0 0
                (snd (write_custom (replicate 64 170) 64 0 0 custom_value_init))))) =
     Inr (replicate 10 0)"
  using zero_offset_write_clears_old_tail
          [of "[5, 6]" 2 0 custom_value_init "replicate 64 170" "replicate 10 187" 0 0]
  by (simp add: sizeof_custom_value_def)

text \<open>
  C4. On the 512-byte buffer, a read at \<open>offset \<le> 512\<close> returns the
  \<open>min(len, 512 - offset)\<close> bytes that start at \<open>offset\<close>; a read at \<open>offset > 512\<close> fails
  with \<open>BT_ATT_ERR_INVALID_OFFSET\<close>; in both cases the buffer after the call is the buffer
  before it.
\<close>

theorem read_custom_contract:
  assumes "length cv = sizeof_custom_value"
  shows "(unat offset \<le> sizeof_custom_value \<longrightarrow>
            fst (read_custom len offset cv) =
              Inr (take (min (unat len) (sizeof_custom_value - unat offset)) (drop (unat offset) cv)) \<and>
            length (take (min (unat len) (sizeof_custom_value - unat offset)) (drop (unat offset) cv)) =
              min (unat len) (sizeof_custom_value - unat offset)) \<and>
         (unat offset > sizeof_custom_value \<longrightarrow>
            fst (read_custom len offset cv) = Inl BT_ATT_ERR_INVALID_OFFSET) \<and>
         snd (read_custom len offset cv) = cv"
  using assms by (auto simp: read_custom_def bt_gatt_attr_read_def)

theorem read_custom_contract_witness:
  "length custom_value_init = sizeof_custom_value \<and>
   unat (8 :: 16 word) \<le> sizeof_custom_value \<and>
   fst (read_custom 100 8 custom_value_init) =
     Inr (take (min (unat (100 :: 16 word)) (sizeof_custom_value - unat (8 :: 16 word)))
            (drop (unat (8 :: 16 word)) custom_value_init)) \<and>
   length (take (min (unat (100 :: 16 word)) (sizeof_custom_value - unat (8 :: 16 word)))
            (drop (unat (8 :: 16 word)) custom_value_init)) = 100 \<and>
   unat (513 :: 16 word) > sizeof_custom_value \<and>
   fst (read_custom 100 513 custom_value_init) = Inl BT_ATT_ERR_INVALID_OFFSET \<and>
   snd (read_custom 100 8 custom_value_init) = custom_value_init"
proof -
  have h: "length custom_value_init = sizeof_custom_value"
    by (simp add: custom_value_init_def sizeof_custom_value_def)
  show ?thesis
    using h read_custom_contract [OF h, of 8 100] read_custom_contract [OF h, of 513 100]
    by (simp add: sizeof_custom_value_def)
qed

section \<open>Executing statements\<close>

lemma trace_exec [simp]: "trace (exec c st s) = trace s @ [(c, st)]"
  by (simp add: exec_def)

lemma effect_frame [simp]:
  "main_pc (effect st s) = main_pc s"
  "cb_pending (effect st s) = cb_pending s"
  "trace (effect st s) = trace s"
  by (cases st; simp split: option.splits)+

lemma exec_frame [simp]:
  "main_pc (exec c st s) = main_pc s"
  "cb_pending (exec c st s) = cb_pending s"
  by (simp_all add: exec_def)

lemma state_exec:
  "state (exec c st s) =
     (case st of
        Atomic_set_bit b \<Rightarrow> set_bit b (state s)
      | Atomic_test_and_clear_bit b r \<Rightarrow> unset_bit b (state s)
      | _ \<Rightarrow> state s)"
  by (cases st)
     (simp_all add: exec_def atomic_set_bit_def atomic_test_and_clear_bit_def split: option.splits)

lemma semmari_exec:
  "semmari (exec c st s) =
     (case st of
        K_sem_init n l \<Rightarrow> k_sem_init n l
      | K_sem_give \<Rightarrow> k_sem_give (semmari s)
      | K_sem_take \<Rightarrow> (case k_sem_take (semmari s) of None \<Rightarrow> semmari s | Some sem \<Rightarrow> sem)
      | _ \<Rightarrow> semmari s)"
  by (cases st) (simp_all add: exec_def split: option.splits)

lemma run_stmts_Nil: "run_stmts c [] s = s"
  by (simp add: run_stmts_def)

lemma run_stmts_Cons: "run_stmts c (st # sts) s = run_stmts c sts (exec c st s)"
  by (simp add: run_stmts_def)

lemma run_stmts_append: "run_stmts c (xs @ ys) s = run_stmts c ys (run_stmts c xs s)"
  by (simp add: run_stmts_def)

lemma trace_run_stmts [simp]: "trace (run_stmts c sts s) = trace s @ map (Pair c) sts"
  by (induction sts arbitrary: s) (simp_all add: run_stmts_Nil run_stmts_Cons)

lemma run_stmts_frame [simp]:
  "main_pc (run_stmts c sts s) = main_pc s"
  "cb_pending (run_stmts c sts s) = cb_pending s"
  by (induction sts arbitrary: s) (simp_all add: run_stmts_Nil run_stmts_Cons)

lemma executed_since_run_stmts [simp]:
  "executed_since s (run_stmts c sts s) = map (Pair c) sts"
  by (simp add: executed_since_def)

lemma effect_pure: "pure_call st \<Longrightarrow> effect st s = s"
  by (cases st) simp_all

lemma exec_pure: "pure_call st \<Longrightarrow> exec c st s = s\<lparr>trace := trace s @ [(c, st)]\<rparr>"
  by (simp add: exec_def effect_pure)

lemma run_stmts_pure:
  "list_all pure_call sts \<Longrightarrow> run_stmts c sts s = s\<lparr>trace := trace s @ map (Pair c) sts\<rparr>"
  by (induction sts arbitrary: s) (simp_all add: run_stmts_Nil run_stmts_Cons exec_pure)

lemma pure_print_attr: "list_all pure_call (concat (replicate n print_attr))"
  by (induction n) (simp_all add: print_attr_def)

lemma count_print_attr:
  "count_list (concat (replicate n print_attr)) Bt_le_adv_start = 0"
  by (induction n) (simp_all add: print_attr_def)

lemma count_print_attr_other:
  "x \<notin> set print_attr \<Longrightarrow> count_list (concat (replicate n print_attr)) x = 0"
  by (induction n) simp_all

lemma count_list_Pair: "count_list (map (Pair c) sts) (c', st) = (if c = c' then count_list sts st else 0)"
  by (induction sts) auto

lemma calls_exec:
  "calls c x (exec c' st s) = calls c x s + (if c' = c \<and> st = x then 1 else 0)"
  by (simp add: calls_def)

lemma calls_cb_pending_update [simp]: "calls c x (s\<lparr>cb_pending := p\<rparr>) = calls c x s"
  by (simp add: calls_def)

lemma calls_run_stmts:
  "calls c x (run_stmts c' sts s) = calls c x s + (if c' = c then count_list sts x else 0)"
  by (simp add: calls_def count_list_Pair)

lemma exec_cb_pending_comm:
  "exec c st (s\<lparr>cb_pending := p\<rparr>) = (exec c st s)\<lparr>cb_pending := p\<rparr>"
  by (cases st) (simp_all add: exec_def split: option.splits)

section \<open>Schedules\<close>

lemma run_Nil [simp]: "run [] s = s"
  by (simp add: run_def)

lemma run_Cons [simp]: "run (a # sch) s = run sch (step a s)"
  by (simp add: run_def)

lemma run_append [simp]: "run (sch1 @ sch2) s = run sch2 (run sch1 s)"
  by (simp add: run_def)

lemma run_snoc: "run (sch @ [a]) s = step a (run sch s)"
  by simp

lemma run_Cbs_prefix:
  "run (replicate (length p) Cb) (s\<lparr>cb_pending := p @ q\<rparr>) =
     (run_stmts In_callback p s)\<lparr>cb_pending := q\<rparr>"
proof (induction p arbitrary: s)
  case Nil
  then show ?case by (simp add: run_stmts_Nil)
next
  case (Cons st p)
  have "step Cb (s\<lparr>cb_pending := (st # p) @ q\<rparr>) = (exec In_callback st s)\<lparr>cb_pending := p @ q\<rparr>"
    by (simp add: exec_cb_pending_comm)
  then show ?case
    using Cons.IH [of "exec In_callback st s"] by (simp add: run_stmts_Cons)
qed

lemma run_Cbs:
  "run (replicate (length p) Cb) (s\<lparr>cb_pending := p\<rparr>) =
     (run_stmts In_callback p s)\<lparr>cb_pending := []\<rparr>"
proof (induction p arbitrary: s)
  case Nil
  then show ?case by (simp add: run_stmts_Nil)
next
  case (Cons st p)
  have "step Cb (s\<lparr>cb_pending := st # p\<rparr>) = (exec In_callback st s)\<lparr>cb_pending := p\<rparr>"
    by (simp add: exec_cb_pending_comm)
  then show ?case
    using Cons.IH [of "exec In_callback st s"] by (simp add: run_stmts_Cons)
qed

lemma run_deliver:
  assumes "cb_pending s = []"
  shows "run (deliver h) s = run_stmts In_callback (body h) s"
proof -
  have "run (deliver h) s = (run_stmts In_callback (body h) s)\<lparr>cb_pending := []\<rparr>"
    using assms run_Cbs [of "body h" s] by (simp add: deliver_def)
  moreover have "cb_pending (run_stmts In_callback (body h) s) = []"
    using assms by simp
  ultimately show ?thesis by simp
qed

lemma run_blocked: "(\<And>r. main_step r s = None) \<Longrightarrow> run (map Main rs) s = s"
  by (induction rs) simp_all

section \<open>What a step of the main thread changes\<close>

lemma main_step_frame:
  "main_step r s = Some s' \<Longrightarrow>
     cb_pending s' = cb_pending s \<and> custom_value s' = custom_value s \<and>
     hrf_ntf_enabled s' = hrf_ntf_enabled s"
  by (auto simp: main_step_def Let_def run_stmts_pure pure_print_attr exec_def
           split: main_pc.splits option.splits if_splits)

lemma main_step_state:
  "main_step r s = Some s' \<Longrightarrow>
     state s' = (if main_pc s = Loop_test then unset_bit STATE_DISCONNECTED (state s) else state s)"
  by (auto simp: main_step_def Let_def run_stmts_pure pure_print_attr exec_def
                 atomic_test_and_clear_bit_def
           split: main_pc.splits option.splits if_splits)

lemma main_step_calls_cb:
  "main_step r s = Some s' \<Longrightarrow> calls In_callback st s' = calls In_callback st s"
  by (auto simp: main_step_def Let_def run_stmts_pure pure_print_attr exec_def calls_def
                 count_list_Pair
           split: main_pc.splits option.splits if_splits)

lemma main_step_adv:
  "main_step r s = Some s' \<Longrightarrow>
     calls In_main Bt_le_adv_start s' =
       calls In_main Bt_le_adv_start s + (if main_pc s = Main_adv \<or> main_pc s = Loop_adv then 1 else 0)"
  by (auto simp: main_step_def Let_def run_stmts_pure pure_print_attr exec_def calls_def
                 count_list_Pair count_print_attr
           split: main_pc.splits option.splits if_splits)

lemma main_step_drained:
  "main_step r s = Some s' \<Longrightarrow>
     drained s' = drained s + (if main_pc s = Loop_test \<and> bit (state s) STATE_DISCONNECTED then 1 else 0)"
  by (auto simp: main_step_def Let_def run_stmts_pure pure_print_attr exec_def calls_def drained_def
                 count_list_Pair count_print_attr_other print_attr_def atomic_test_and_clear_bit_def
           split: main_pc.splits option.splits if_splits)

lemma main_step_pc_exact:
  "main_step r s = Some s' \<Longrightarrow>
     main_pc s' =
       (case main_pc s of
          Main_init \<Rightarrow> Main_enable
        | Main_enable \<Rightarrow> if r \<noteq> 0 then Exited 0 else Main_wait
        | Main_wait \<Rightarrow> Main_setup
        | Main_setup \<Rightarrow> Main_foreach
        | Main_foreach \<Rightarrow> Main_adv
        | Main_adv \<Rightarrow> if r \<noteq> 0 then Exited 0 else Loop_take
        | Loop_take \<Rightarrow> Loop_test
        | Loop_test \<Rightarrow> if bit (state s) STATE_DISCONNECTED then Loop_adv else Loop_take
        | Loop_adv \<Rightarrow> if r \<noteq> 0 then Exited 0 else Loop_take
        | Exited c \<Rightarrow> Exited c)"
  by (auto simp: main_step_def Let_def atomic_test_and_clear_bit_def
           split: main_pc.splits option.splits if_splits)

lemma main_step_semmari:
  "main_step r s = Some s' \<Longrightarrow>
     semmari s' =
       (if main_pc s = Main_init then k_sem_init 0 1
        else if main_pc s = Main_wait \<or> main_pc s = Loop_take
        then (semmari s)\<lparr>count := count (semmari s) - 1\<rparr>
        else semmari s)"
  by (auto simp: main_step_def Let_def run_stmts_pure pure_print_attr exec_def k_sem_take_def
           split: main_pc.splits option.splits if_splits)

lemma main_step_None:
  "main_step r s = None \<longleftrightarrow>
     ((main_pc s = Main_wait \<or> main_pc s = Loop_take) \<and> count (semmari s) = 0) \<or>
     (\<exists>c. main_pc s = Exited c)"
  by (auto simp: main_step_def Let_def k_sem_take_def split: main_pc.splits option.splits if_splits)

lemma main_step_exit:
  "main_step r s = Some s' \<Longrightarrow> main_pc s' = Exited c \<Longrightarrow> c = 0"
  by (auto simp: main_step_def Let_def split: main_pc.splits option.splits if_splits)

text \<open>The main thread returns only in a step in which \<open>bt_enable\<close> or
  \<open>bt_le_adv_start\<close> has returned an error.\<close>

lemma main_returns_only_on_error:
  "main_step r s = Some s' \<Longrightarrow> main_pc s' = Exited c \<Longrightarrow>
     r \<noteq> 0 \<and> (main_pc s = Main_enable \<or> main_pc s = Main_adv \<or> main_pc s = Loop_adv)"
  by (auto simp: main_step_def Let_def split: main_pc.splits option.splits if_splits)

section \<open>Invariants of the system\<close>

subsection \<open>The statements a callback has still to execute\<close>

lemma body_ok:
  "list_all handler_stmt (body h)" "disc_ok (body h)" "owed (body h) = 0"
  by (cases h;
      simp add: connected_def disconnected_def hrs_ntf_changed_def auth_cancel_def
        enter_passkey_def confirm_passkey_def confirm_pairing_def auth_passkey_display_def
        bt_ready_def owed_def STATE_CONNECTED_def STATE_DISCONNECTED_def)+

lemma pending_ok_step: "pending_ok s \<Longrightarrow> pending_ok (step a s)"
proof (cases a)
  case (Main r)
  assume "pending_ok s"
  then show ?thesis
    using Main main_step_frame [of r s] by (auto simp: pending_ok_def split: option.splits)
next
  case (Invoke h)
  assume "pending_ok s"
  then show ?thesis
    using Invoke by (simp add: pending_ok_def body_ok)
next
  case Cb
  assume "pending_ok s"
  then show ?thesis
    using Cb by (cases "cb_pending s") (simp_all add: pending_ok_def)
qed

lemma pending_ok_run: "pending_ok s \<Longrightarrow> pending_ok (run sch s)"
  by (induction sch arbitrary: s) (simp_all add: pending_ok_step)

lemma pending_ok_boot: "pending_ok boot"
  by (simp add: pending_ok_def boot_def)

subsection \<open>The size of \<open>custom_value\<close>\<close>

lemma length_write_custom:
  "length cv = sizeof_custom_value \<Longrightarrow>
     length (snd (write_custom buf len offset flags cv)) = sizeof_custom_value"
  by (simp add: write_custom_def Let_def length_memcpy memset_custom_value_def)

lemma length_custom_value_exec:
  "length (custom_value s) = sizeof_custom_value \<Longrightarrow>
     length (custom_value (exec c st s)) = sizeof_custom_value"
  by (cases st) (simp_all add: exec_def length_write_custom read_custom_def split: option.splits)

lemma length_custom_value_step:
  assumes "length (custom_value s) = sizeof_custom_value"
  shows "length (custom_value (step a s)) = sizeof_custom_value"
proof (cases a)
  case (Main r)
  then show ?thesis
    using assms main_step_frame [of r s] by (auto split: option.splits)
next
  case (Invoke h)
  then show ?thesis using assms by simp
next
  case Cb
  then show ?thesis
    using assms by (cases "cb_pending s") (simp_all add: length_custom_value_exec)
qed

lemma length_custom_value_run:
  "length (custom_value (run sch boot)) = sizeof_custom_value"
proof (induction sch rule: rev_induct)
  case Nil
  then show ?case
    by (simp add: boot_def custom_value_init_def sizeof_custom_value_def)
next
  case (snoc a sch)
  then show ?case by (simp add: length_custom_value_step)
qed

subsection \<open>The exit code\<close>

lemma step_exit: "main_pc (step a s) = Exited c \<Longrightarrow> c = 0 \<or> main_pc s = Exited c"
proof (cases a)
  case (Main r)
  assume "main_pc (step a s) = Exited c"
  then show ?thesis
    using Main main_step_exit [of r s _ c] by (auto split: option.splits)
next
  case (Invoke h)
  assume "main_pc (step a s) = Exited c"
  then show ?thesis using Invoke by (simp split: if_splits)
next
  case Cb
  assume "main_pc (step a s) = Exited c"
  then show ?thesis using Cb by (simp split: list.splits)
qed

lemma run_exit: "main_pc (run sch boot) = Exited c \<Longrightarrow> c = 0"
proof (induction sch arbitrary: c rule: rev_induct)
  case Nil
  then show ?case by (simp add: boot_def)
next
  case (snoc a sch)
  then show ?case using step_exit [of a "run sch boot" c] by auto
qed

subsection \<open>The connected flag\<close>

lemma step_keeps_connected:
  assumes "list_all handler_stmt (cb_pending s)" and "bit (state s) STATE_CONNECTED"
  shows "bit (state (step a s)) STATE_CONNECTED"
proof (cases a)
  case (Main r)
  then show ?thesis
    using assms(2) main_step_state [of r s]
    by (auto simp: bit_simps STATE_CONNECTED_def STATE_DISCONNECTED_def split: option.splits)
next
  case (Invoke h)
  then show ?thesis using assms(2) by simp
next
  case Cb
  show ?thesis
  proof (cases "cb_pending s")
    case Nil
    then show ?thesis using Cb assms(2) by simp
  next
    case (Cons st rest)
    then have "handler_stmt st" using assms(1) by simp
    then have "bit (state (exec In_callback st s)) STATE_CONNECTED"
      using assms(2) by (cases st) (simp_all add: state_exec bit_simps)
    then show ?thesis using Cb Cons by simp
  qed
qed

lemma run_keeps_connected:
  "pending_ok s \<Longrightarrow> bit (state s) STATE_CONNECTED \<Longrightarrow> bit (state (run sch s)) STATE_CONNECTED"
proof (induction sch arbitrary: s)
  case Nil
  then show ?case by simp
next
  case (Cons a sch)
  then show ?case
    using step_keeps_connected [of s a] pending_ok_step [of s a] by (simp add: pending_ok_def)
qed

subsection \<open>The semaphore\<close>

lemma main_step_sem_ok: "main_step r s = Some s' \<Longrightarrow> sem_ok s \<Longrightarrow> sem_ok s'"
  by (auto simp: main_step_def Let_def run_stmts_pure pure_print_attr exec_def sem_ok_def
                 k_sem_init_def k_sem_take_def
           split: main_pc.splits option.splits if_splits)

lemma exec_sem_ok:
  "handler_stmt st \<Longrightarrow> sem_ok s \<Longrightarrow> sem_ok (exec c st s)"
  by (cases st) (auto simp: sem_ok_def semmari_exec k_sem_give_def)

lemma sem_ok_step:
  assumes "list_all handler_stmt (cb_pending s)" and "sem_ok s"
  shows "sem_ok (step a s)"
proof (cases a)
  case (Main r)
  then show ?thesis
    using assms(2) main_step_sem_ok [of r s] by (auto split: option.splits)
next
  case (Invoke h)
  then show ?thesis using assms(2) by (simp add: sem_ok_def)
next
  case Cb
  show ?thesis
  proof (cases "cb_pending s")
    case Nil
    then show ?thesis using Cb assms(2) by simp
  next
    case (Cons st rest)
    then have "sem_ok (exec In_callback st s)"
      using assms by (simp add: exec_sem_ok)
    then show ?thesis using Cb Cons by (simp add: sem_ok_def)
  qed
qed

lemma sem_ok_run: "pending_ok s \<Longrightarrow> sem_ok s \<Longrightarrow> sem_ok (run sch s)"
proof (induction sch arbitrary: s)
  case Nil
  then show ?case by simp
next
  case (Cons a sch)
  then show ?case
    using sem_ok_step [of s a] pending_ok_step [of s a] by (simp add: pending_ok_def)
qed

lemma sem_ok_boot: "sem_ok boot"
  by (simp add: sem_ok_def boot_def)

subsection \<open>Unpair before the flag\<close>

lemma owed_le: "owed p \<le> 1"
  by (simp add: owed_def)

lemma unpair_first_Cb:
  assumes "disc_ok (st # rest)" and "cb_pending s = st # rest" and "unpair_first s"
  shows "unpair_first ((exec In_callback st s)\<lparr>cb_pending := rest\<rparr>)"
proof -
  consider "st = Bt_unpair" | "st = Atomic_set_bit STATE_DISCONNECTED"
    | "st \<noteq> Bt_unpair" "st \<noteq> Atomic_set_bit STATE_DISCONNECTED" by blast
  then show ?thesis
  proof cases
    case 1
    then show ?thesis
      using assms(2,3) owed_le [of rest] by (simp add: unpair_first_def calls_exec)
  next
    case 2
    then have "owed (st # rest) = 1" and "owed rest = 0"
      using assms(1) by (simp_all add: owed_def)
    then show ?thesis
      using 2 assms(2,3) by (simp add: unpair_first_def calls_exec)
  next
    case 3
    then have "owed (st # rest) = owed rest"
      by (auto simp: owed_def)
    then show ?thesis
      using 3 assms(2,3) by (simp add: unpair_first_def calls_exec)
  qed
qed

lemma unpair_first_step:
  assumes "disc_ok (cb_pending s)" and "unpair_first s"
  shows "unpair_first (step a s)"
proof (cases a)
  case (Main r)
  then show ?thesis
    using assms(2) main_step_calls_cb [of r s] main_step_frame [of r s]
    by (auto simp: unpair_first_def split: option.splits)
next
  case (Invoke h)
  then show ?thesis using assms(2) by (simp add: unpair_first_def body_ok)
next
  case Cb
  show ?thesis
  proof (cases "cb_pending s")
    case Nil
    then show ?thesis using Cb assms(2) by simp
  next
    case (Cons st rest)
    have d: "disc_ok (st # rest)"
      using assms(1) unfolding Cons .
    have "unpair_first ((exec In_callback st s)\<lparr>cb_pending := rest\<rparr>)"
      using unpair_first_Cb [OF d Cons assms(2)] .
    then show ?thesis using Cb Cons by simp
  qed
qed

lemma unpair_first_run: "pending_ok s \<Longrightarrow> unpair_first s \<Longrightarrow> unpair_first (run sch s)"
proof (induction sch arbitrary: s)
  case Nil
  then show ?case by simp
next
  case (Cons a sch)
  then show ?case
    using unpair_first_step [of s a] pending_ok_step [of s a] by (simp add: pending_ok_def)
qed

lemma unpair_first_boot: "unpair_first boot"
  by (simp add: unpair_first_def boot_def calls_def owed_def)

subsection \<open>The flag before a restart\<close>

lemma main_step_pc:
  "main_step r s = Some s' \<Longrightarrow>
     (before_adv (main_pc s') \<longrightarrow> before_adv (main_pc s) \<and> main_pc s \<noteq> Main_adv) \<and>
     (main_pc s' = Loop_adv \<longrightarrow> main_pc s = Loop_test \<and> bit (state s) STATE_DISCONNECTED) \<and>
     (main_pc s = Loop_adv \<longrightarrow> main_pc s' \<noteq> Loop_adv)"
  by (auto simp: main_step_def Let_def before_adv_def atomic_test_and_clear_bit_def
           split: main_pc.splits option.splits if_splits)

lemma main_step_flag_first:
  assumes "main_step r s = Some s'" and "flag_first s"
  shows "flag_first s'"
proof -
  note st = main_step_state [OF assms(1)]
  note cb = main_step_calls_cb [OF assms(1)]
  note adv = main_step_adv [OF assms(1)]
  note pc = main_step_pc [OF assms(1)]
  have nb: "\<not> bit (unset_bit STATE_DISCONNECTED (state s)) STATE_DISCONNECTED"
    by (simp add: bit_simps)
  show ?thesis
    using assms(2) pc nb
    unfolding flag_first_def st cb adv
    by (auto simp: before_adv_def split: if_splits)
qed

lemma flag_first_cb_pending [simp]: "flag_first (s\<lparr>cb_pending := p\<rparr>) = flag_first s"
  by (simp add: flag_first_def)

lemma exec_flag_first:
  assumes "handler_stmt st" and "flag_first s"
  shows "flag_first (exec In_callback st s)"
proof -
  have A: "calls In_main Bt_le_adv_start (exec In_callback st s) = calls In_main Bt_le_adv_start s"
    by (simp add: calls_exec)
  show ?thesis
  proof (cases "st = Atomic_set_bit STATE_DISCONNECTED")
    case True
    have S: "calls In_callback (Atomic_set_bit STATE_DISCONNECTED) (exec In_callback st s) =
               calls In_callback (Atomic_set_bit STATE_DISCONNECTED) s + 1"
      using True by (simp add: calls_exec)
    have B: "bit (state (exec In_callback st s)) STATE_DISCONNECTED"
      using True by (simp add: state_exec bit_simps STATE_DISCONNECTED_def)
    show ?thesis
      using assms(2) unfolding flag_first_def A S
      by (auto simp: B split: if_splits)
  next
    case False
    have S: "calls In_callback (Atomic_set_bit STATE_DISCONNECTED) (exec In_callback st s) =
               calls In_callback (Atomic_set_bit STATE_DISCONNECTED) s"
      using False by (simp add: calls_exec)
    have B: "bit (state (exec In_callback st s)) STATE_DISCONNECTED = bit (state s) STATE_DISCONNECTED"
      using False assms(1) by (cases st) (auto simp: state_exec bit_simps)
    show ?thesis
      using assms(2) unfolding flag_first_def A S B by simp
  qed
qed

lemma flag_first_step:
  assumes "list_all handler_stmt (cb_pending s)" and "flag_first s"
  shows "flag_first (step a s)"
proof (cases a)
  case (Main r)
  then show ?thesis
    using assms(2) main_step_flag_first [of r s] by (auto split: option.splits)
next
  case (Invoke h)
  then show ?thesis using assms(2) by simp
next
  case Cb
  show ?thesis
  proof (cases "cb_pending s")
    case Nil
    then show ?thesis using Cb assms(2) by simp
  next
    case (Cons st rest)
    then show ?thesis using Cb assms exec_flag_first [of st s] by simp
  qed
qed

lemma flag_first_run: "pending_ok s \<Longrightarrow> flag_first s \<Longrightarrow> flag_first (run sch s)"
proof (induction sch arbitrary: s)
  case Nil
  then show ?case by simp
next
  case (Cons a sch)
  then show ?case
    using flag_first_step [of s a] pending_ok_step [of s a] by (simp add: pending_ok_def)
qed

lemma flag_first_boot: "flag_first boot"
  by (simp add: flag_first_def boot_def calls_def before_adv_def)

lemma restarts_le_unpairs:
  "calls In_main Bt_le_adv_start (run sch boot) \<le> 1 + calls In_callback Bt_unpair (run sch boot)"
proof -
  have "flag_first (run sch boot)"
    by (simp add: flag_first_run pending_ok_boot flag_first_boot)
  moreover have "unpair_first (run sch boot)"
    by (simp add: unpair_first_run pending_ok_boot unpair_first_boot)
  ultimately show ?thesis
    by (simp add: flag_first_def unpair_first_def split: if_splits)
qed

subsection \<open>One restart for each drain\<close>

lemma main_step_restart_per_drain:
  assumes "main_step r s = Some s'" and "restart_per_drain s"
  shows "restart_per_drain s'"
  using assms(2)
  unfolding restart_per_drain_def main_step_drained [OF assms(1)] main_step_adv [OF assms(1)]
    main_step_pc_exact [OF assms(1)]
  by (cases "main_pc s") (auto split: if_splits)

lemma restart_per_drain_cb_pending [simp]:
  "restart_per_drain (s\<lparr>cb_pending := p\<rparr>) = restart_per_drain s"
  by (cases "main_pc s") (simp_all add: restart_per_drain_def drained_def)

lemma restart_per_drain_exec [simp]:
  "restart_per_drain (exec In_callback st s) = restart_per_drain s"
  by (cases "main_pc s") (simp_all add: restart_per_drain_def drained_def calls_exec)

lemma restart_per_drain_step:
  assumes "restart_per_drain s"
  shows "restart_per_drain (step a s)"
proof (cases a)
  case (Main r)
  then show ?thesis
    using assms main_step_restart_per_drain [of r s] by (auto split: option.splits)
next
  case (Invoke h)
  then show ?thesis using assms by simp
next
  case Cb
  then show ?thesis using assms by (cases "cb_pending s") simp_all
qed

lemma restart_per_drain_run: "restart_per_drain (run sch boot)"
proof (induction sch rule: rev_induct)
  case Nil
  then show ?case by (simp add: restart_per_drain_def boot_def calls_def drained_def)
next
  case (snoc a sch)
  then show ?case by (simp add: restart_per_drain_step)
qed

section \<open>Callbacks delivered in full, and the drain that follows\<close>

lemma state_run_disconnected:
  "state (run_stmts In_callback (disconnected conn reason) s) = set_bit STATE_DISCONNECTED (state s)"
  by (simp add: disconnected_def run_stmts_Cons run_stmts_Nil state_exec)

lemma semmari_run_disconnected:
  "semmari (run_stmts In_callback (disconnected conn reason) s) = k_sem_give (semmari s)"
  by (simp add: disconnected_def run_stmts_Cons run_stmts_Nil semmari_exec)

lemma semmari_run_connected:
  "semmari (run_stmts In_callback (connected conn err) s) = semmari s"
  by (simp add: connected_def run_stmts_Cons run_stmts_Nil semmari_exec)

lemma deliver_connected:
  assumes "in_loop s"
  shows "in_loop (run (deliver (Connected conn err)) s)"
    and "calls In_main x (run (deliver (Connected conn err)) s) = calls In_main x s"
  using assms
  by (simp_all add: in_loop_def run_deliver semmari_run_connected calls_run_stmts)

lemma deliver_disconnected:
  assumes "in_loop s"
  shows "in_loop (run (deliver (Disconnected conn reason)) s)"
    and "signalled (run (deliver (Disconnected conn reason)) s)"
    and "calls In_main x (run (deliver (Disconnected conn reason)) s) = calls In_main x s"
  using assms
  by (auto simp: in_loop_def signalled_def run_deliver semmari_run_disconnected
        state_run_disconnected calls_run_stmts k_sem_give_def bit_simps STATE_DISCONNECTED_def)

lemma deliver_disconnects:
  assumes "in_loop s" and "signalled s \<or> ds \<noteq> []"
  shows "in_loop (run (disconnects ds) s) \<and> signalled (run (disconnects ds) s) \<and>
         calls In_main x (run (disconnects ds) s) = calls In_main x s"
  using assms
proof (induction ds arbitrary: s)
  case Nil
  then show ?case by (simp add: disconnects_def)
next
  case (Cons d ds)
  let ?t = "run (deliver (Disconnected (fst d) (snd d))) s"
  have "in_loop ?t" "signalled ?t" "calls In_main x ?t = calls In_main x s"
    using Cons.prems(1) by (simp_all add: deliver_disconnected)
  then show ?case
    using Cons.IH [of ?t] by (simp add: disconnects_def)
qed

lemma disconnected_half:
  assumes "cb_pending s = []"
  shows "run [Invoke (Disconnected conn reason), Cb, Cb] s =
           (run_stmts In_callback [Printk ''Disconnected, reason 0x%02x %s'', Bt_unpair] s)
           \<lparr>cb_pending := [Atomic_set_bit STATE_DISCONNECTED, K_sem_give]\<rparr>"
  using assms
  by (simp add: disconnected_def exec_cb_pending_comm run_stmts_Cons run_stmts_Nil)

lemma loop_view_step:
  assumes "main_step r s = Some s'"
  shows "loop_view (step (Main r) s) =
           (case main_pc s of
              Loop_take \<Rightarrow> (Loop_test, bit (state s) STATE_DISCONNECTED, count (semmari s) - 1,
                            calls In_main Bt_le_adv_start s)
            | Loop_test \<Rightarrow> (if bit (state s) STATE_DISCONNECTED then Loop_adv else Loop_take, False,
                            count (semmari s), calls In_main Bt_le_adv_start s)
            | Loop_adv \<Rightarrow> (if r \<noteq> 0 then Exited 0 else Loop_take,
                           bit (state s) STATE_DISCONNECTED, count (semmari s),
                           calls In_main Bt_le_adv_start s + 1)
            | _ \<Rightarrow> loop_view s')"
  using assms
  unfolding loop_view_def
  by (cases "main_pc s")
     (simp_all add: main_step_state [OF assms] main_step_adv [OF assms]
        main_step_pc_exact [OF assms] main_step_semmari [OF assms] bit_simps)

lemma loop_take_step:
  assumes "loop_view s = (Loop_take, b, Suc c, a)"
  shows "loop_view (step (Main r) s) = (Loop_test, b, c, a)"
proof -
  have "main_step r s \<noteq> None"
    using assms by (simp add: main_step_None loop_view_def)
  then obtain s' where "main_step r s = Some s'" by blast
  then show ?thesis
    using loop_view_step [of r s s'] assms by (simp add: loop_view_def)
qed

lemma loop_test_step:
  assumes "loop_view s = (Loop_test, b, c, a)"
  shows "loop_view (step (Main r) s) = (if b then Loop_adv else Loop_take, False, c, a)"
proof -
  have "main_step r s \<noteq> None"
    using assms by (simp add: main_step_None loop_view_def)
  then obtain s' where "main_step r s = Some s'" by blast
  then show ?thesis
    using loop_view_step [of r s s'] assms by (simp add: loop_view_def)
qed

lemma loop_adv_step:
  assumes "loop_view s = (Loop_adv, b, c, a)"
  shows "loop_view (step (Main r) s) = (if r \<noteq> 0 then Exited 0 else Loop_take, b, c, a + 1)"
proof -
  have "main_step r s \<noteq> None"
    using assms by (simp add: main_step_None loop_view_def)
  then obtain s' where "main_step r s = Some s'" by blast
  then show ?thesis
    using loop_view_step [of r s s'] assms by (simp add: loop_view_def)
qed

lemma loop_blocked:
  assumes "loop_view s = (Loop_take, b, 0, a) \<or> loop_view s = (Exited e, b, c, a)"
  shows "main_step r s = None" and "run (map Main rs) s = s"
proof -
  show blocked: "main_step r s = None" for r
    using assms by (auto simp: main_step_None loop_view_def)
  show "run (map Main rs) s = s"
    using blocked by (rule run_blocked)
qed

lemma drain_after_signal:
  assumes "in_loop s" and "signalled s" and "4 \<le> length rs"
  shows "calls In_main Bt_le_adv_start (run (map Main rs) s) = calls In_main Bt_le_adv_start s + 1 \<and>
         \<not> bit (state (run (map Main rs) s)) STATE_DISCONNECTED \<and>
         main_step r (run (map Main rs) s) = None"
proof -
  obtain r1 r2 r3 r4 rest where rs: "rs = r1 # r2 # r3 # r4 # rest"
    using assms(3) by (cases rs; cases "tl rs"; cases "tl (tl rs)"; cases "tl (tl (tl rs))") auto
  define a where "a = calls In_main Bt_le_adv_start s"
  define s1 where "s1 = step (Main r1) s"
  define s2 where "s2 = step (Main r2) s1"
  define s3 where "s3 = step (Main r3) s2"
  define s4 where "s4 = step (Main r4) s3"
  have run4: "run (map Main rs) s = run (map Main rest) s4"
    and run3: "run (map Main rs) s = run (map Main (r4 # rest)) s3"
    and run2: "run (map Main rs) s = run (map Main (r3 # r4 # rest)) s2"
    by (simp_all add: rs s1_def s2_def s3_def s4_def del: step.simps)
  have final: ?thesis
    if v: "loop_view t = (Loop_take, False, 0, a + 1) \<or> loop_view t = (Exited 0, False, c, a + 1)"
      and r: "run (map Main rs) s = run (map Main rs') t" for t c rs'
  proof -
    have "run (map Main rs') t = t" and "main_step r t = None"
      using loop_blocked [OF v] by simp_all
    then show ?thesis
      using v r by (auto simp: a_def loop_view_def)
  qed
  consider "main_pc s = Loop_take" | "main_pc s = Loop_test"
    using assms(1) by (auto simp: in_loop_def)
  then show ?thesis
  proof cases
    case 1
    then have v0: "loop_view s = (Loop_take, True, Suc 0, a)"
      using assms(2) by (simp add: loop_view_def signalled_def a_def)
    have v1: "loop_view s1 = (Loop_test, True, 0, a)"
      unfolding s1_def using loop_take_step [OF v0] .
    have v2: "loop_view s2 = (Loop_adv, False, 0, a)"
      unfolding s2_def using loop_test_step [OF v1] by simp
    have v3: "loop_view s3 = (if r3 \<noteq> 0 then Exited 0 else Loop_take, False, 0, a + 1)"
      unfolding s3_def using loop_adv_step [OF v2] .
    then have "loop_view s3 = (Loop_take, False, 0, a + 1) \<or>
               loop_view s3 = (Exited 0, False, 0, a + 1)"
      by (cases "r3 = 0") simp_all
    then show ?thesis
      using run3 by (rule final)
  next
    case 2
    then have v0: "loop_view s = (Loop_test, True, Suc 0, a)"
      using assms(2) by (simp add: loop_view_def signalled_def a_def)
    have v1: "loop_view s1 = (Loop_adv, False, Suc 0, a)"
      unfolding s1_def using loop_test_step [OF v0] by simp
    have v2: "loop_view s2 = (if r2 \<noteq> 0 then Exited 0 else Loop_take, False, Suc 0, a + 1)"
      unfolding s2_def using loop_adv_step [OF v1] .
    show ?thesis
    proof (cases "r2 = 0")
      case True
      then have v2': "loop_view s2 = (Loop_take, False, Suc 0, a + 1)"
        using v2 by simp
      have v3: "loop_view s3 = (Loop_test, False, 0, a + 1)"
        unfolding s3_def using loop_take_step [OF v2'] .
      have v4: "loop_view s4 = (Loop_take, False, 0, a + 1)"
        unfolding s4_def using loop_test_step [OF v3] by simp
      then have "loop_view s4 = (Loop_take, False, 0, a + 1) \<or>
                 loop_view s4 = (Exited 0, False, 0, a + 1)"
        by simp
      then show ?thesis
        using run4 by (rule final)
    next
      case False
      then have "loop_view s2 = (Loop_take, False, 0, a + 1) \<or>
                 loop_view s2 = (Exited 0, False, Suc 0, a + 1)"
        using v2 by simp
      then show ?thesis
        using run2 by (rule final)
    qed
  qed
qed

lemma bring_up_pc:
  "main_pc (run (bring_up u n e) boot) = (if e \<noteq> 0 then Exited 0 else Loop_take)"
  "cb_pending (run (bring_up u n e) boot) = []"
  by (simp_all add: bring_up_def deliver_def boot_def main_step_def bt_ready_def exec_def
        k_sem_init_def k_sem_give_def k_sem_take_def)

section \<open>The connection callbacks, the pairing policy and the main thread\<close>

text \<open>
  C5. A connect event with a failure outcome (\<open>err \<noteq> 0\<close>) leaves \<open>state\<close> as it is and
  executes the \<open>printk\<close> only: no flag is set and no connection-parameter update is
  requested. A connect event with outcome success sets \<open>STATE_CONNECTED\<close> and requests
  one connection-parameter update, for that connection, with interval 10 to 10, latency 0
  and timeout 100.
\<close>

theorem connected_handler:
  "(err \<noteq> 0 \<longrightarrow>
      state (run_stmts In_callback (connected conn err) s) = state s \<and>
      executed_since s (run_stmts In_callback (connected conn err) s) =
        [(In_callback, Printk ''Connection failed, err 0x%02x %s'')]) \<and>
   (err = 0 \<longrightarrow>
      state (run_stmts In_callback (connected conn err) s) = set_bit STATE_CONNECTED (state s) \<and>
      bit (state (run_stmts In_callback (connected conn err) s)) STATE_CONNECTED \<and>
      executed_since s (run_stmts In_callback (connected conn err) s) =
        [(In_callback, Printk ''Connected''),
         (In_callback, Atomic_set_bit STATE_CONNECTED),
         (In_callback, Bt_conn_le_param_update conn
            \<lparr>interval_min = 10, interval_max = 10, latency = 0, timeout = 100\<rparr>)])"
proof -
  have e: "executed_since s (run_stmts In_callback (connected conn err) s) =
             map (Pair In_callback) (connected conn err)"
    by simp
  have st: "state (run_stmts In_callback (connected conn err) s) =
              (if err \<noteq> 0 then state s else set_bit STATE_CONNECTED (state s))"
    by (simp add: connected_def run_stmts_Cons run_stmts_Nil state_exec)
  have b: "bit (set_bit STATE_CONNECTED (state s)) STATE_CONNECTED"
    by (simp add: STATE_CONNECTED_def bit_simps)
  show ?thesis
    unfolding e st using b by (simp add: connected_def conn_parameters_def)
qed

theorem connected_handler_witness:
  "(5 :: 8 word) \<noteq> 0 \<and>
   state (run_stmts In_callback (connected 1 5) boot) = state boot \<and>
   executed_since boot (run_stmts In_callback (connected 1 5) boot) =
     [(In_callback, Printk ''Connection failed, err 0x%02x %s'')] \<and>
   (0 :: 8 word) = 0 \<and>
   bit (state (run_stmts In_callback (connected 1 0) boot)) STATE_CONNECTED \<and>
   executed_since boot (run_stmts In_callback (connected 1 0) boot) =
     [(In_callback, Printk ''Connected''),
      (In_callback, Atomic_set_bit STATE_CONNECTED),
      (In_callback, Bt_conn_le_param_update 1
         \<lparr>interval_min = 10, interval_max = 10, latency = 0, timeout = 100\<rparr>)]"
proof -
  have h: "(5 :: 8 word) \<noteq> 0" by simp
  show ?thesis
    using h connected_handler [of 5 1 boot] connected_handler [of 0 1 boot] by blast
qed

text \<open>
  C6. In every disconnect callback, whatever the reason, \<open>bt_unpair\<close> is the second
  statement: once it has been executed, \<open>state\<close> and \<open>semmari\<close> are still what they were
  when the callback was invoked, and the flag is set and the semaphore given only by the
  two statements after it. In every state the system reaches from boot, under every
  interleaving of the main thread and the callbacks, statement by statement, the callback
  context has set \<open>STATE_DISCONNECTED\<close> at most as often as it has called \<open>bt_unpair\<close>, and
  the main thread has started advertising at most once (the bring-up) more often than the
  callback context has called \<open>bt_unpair\<close>: each restart comes after an unpair request of
  a disconnect callback.
\<close>

theorem disconnected_unpairs_first:
  "(cb_pending s = [] \<longrightarrow>
      executed_since s (run [Invoke (Disconnected conn reason), Cb, Cb] s) =
        [(In_callback, Printk ''Disconnected, reason 0x%02x %s''), (In_callback, Bt_unpair)] \<and>
      state (run [Invoke (Disconnected conn reason), Cb, Cb] s) = state s \<and>
      semmari (run [Invoke (Disconnected conn reason), Cb, Cb] s) = semmari s \<and>
      executed_since s (run (deliver (Disconnected conn reason)) s) =
        [(In_callback, Printk ''Disconnected, reason 0x%02x %s''), (In_callback, Bt_unpair),
         (In_callback, Atomic_set_bit STATE_DISCONNECTED), (In_callback, K_sem_give)] \<and>
      bit (state (run (deliver (Disconnected conn reason)) s)) STATE_DISCONNECTED \<and>
      semmari (run (deliver (Disconnected conn reason)) s) = k_sem_give (semmari s)) \<and>
   calls In_callback (Atomic_set_bit STATE_DISCONNECTED) (run sch boot)
     \<le> calls In_callback Bt_unpair (run sch boot) \<and>
   calls In_main Bt_le_adv_start (run sch boot) \<le> 1 + calls In_callback Bt_unpair (run sch boot)"
proof (intro conjI impI)
  assume idle: "cb_pending s = []"
  note half = disconnected_half [OF idle, of conn reason]
  note full = run_deliver [OF idle, of "Disconnected conn reason"]
  show "executed_since s (run [Invoke (Disconnected conn reason), Cb, Cb] s) =
        [(In_callback, Printk ''Disconnected, reason 0x%02x %s''), (In_callback, Bt_unpair)]"
    unfolding half by (simp add: executed_since_def)
  show "state (run [Invoke (Disconnected conn reason), Cb, Cb] s) = state s"
    unfolding half by (simp add: run_stmts_Cons run_stmts_Nil state_exec)
  show "semmari (run [Invoke (Disconnected conn reason), Cb, Cb] s) = semmari s"
    unfolding half by (simp add: run_stmts_Cons run_stmts_Nil semmari_exec)
  show "executed_since s (run (deliver (Disconnected conn reason)) s) =
        [(In_callback, Printk ''Disconnected, reason 0x%02x %s''), (In_callback, Bt_unpair),
         (In_callback, Atomic_set_bit STATE_DISCONNECTED), (In_callback, K_sem_give)]"
    unfolding full by (simp add: executed_since_def disconnected_def)
  show "bit (state (run (deliver (Disconnected conn reason)) s)) STATE_DISCONNECTED"
    unfolding full by (simp add: state_run_disconnected bit_simps STATE_DISCONNECTED_def)
  show "semmari (run (deliver (Disconnected conn reason)) s) = k_sem_give (semmari s)"
    unfolding full by (simp add: semmari_run_disconnected)
next
  have "unpair_first (run sch boot)"
    by (simp add: unpair_first_run pending_ok_boot unpair_first_boot)
  then show "calls In_callback (Atomic_set_bit STATE_DISCONNECTED) (run sch boot)
     \<le> calls In_callback Bt_unpair (run sch boot)"
    by (simp add: unpair_first_def)
next
  show "calls In_main Bt_le_adv_start (run sch boot) \<le> 1 + calls In_callback Bt_unpair (run sch boot)"
    by (rule restarts_le_unpairs)
qed

theorem disconnected_unpairs_first_witness:
  "cb_pending boot = [] \<and>
   executed_since boot (run [Invoke (Disconnected 1 19), Cb, Cb] boot) =
     [(In_callback, Printk ''Disconnected, reason 0x%02x %s''), (In_callback, Bt_unpair)] \<and>
   state (run [Invoke (Disconnected 1 19), Cb, Cb] boot) = state boot \<and>
   semmari (run [Invoke (Disconnected 1 19), Cb, Cb] boot) = semmari boot \<and>
   bit (state (run (deliver (Disconnected 1 19)) boot)) STATE_DISCONNECTED \<and>
   calls In_main Bt_le_adv_start
     (run (bring_up 0 2 0 @ deliver (Disconnected 1 19) @ [Main 0, Main 0, Main 0]) boot)
     \<le> 1 + calls In_callback Bt_unpair
         (run (bring_up 0 2 0 @ deliver (Disconnected 1 19) @ [Main 0, Main 0, Main 0]) boot) \<and>
   calls In_main Bt_le_adv_start
     (run (bring_up 0 2 0 @ deliver (Disconnected 1 19) @ [Main 0, Main 0, Main 0]) boot) = 2"
proof -
  have h: "cb_pending boot = []"
    by (simp add: boot_def)
  have v: "calls In_main Bt_le_adv_start
     (run (bring_up 0 2 0 @ deliver (Disconnected 1 19) @ [Main 0, Main 0, Main 0]) boot) = 2"
    by code_simp
  show ?thesis
    using h v disconnected_unpairs_first
                [of boot 1 19 "bring_up 0 2 0 @ deliver (Disconnected 1 19) @ [Main 0, Main 0, Main 0]"]
    by blast
qed

text \<open>
  C7. Let the system have reached, from boot, a state in which the main thread is in its
  loop, before \<open>k_sem_take\<close> or before the test-and-clear, and no callback is running.
  A successful connect event and then one or more disconnect events are delivered, and
  then the main thread runs alone, for four steps or more. Then the main thread has
  started advertising exactly once more, \<open>STATE_DISCONNECTED\<close> is clear, and the main
  thread cannot go on (it is blocked in \<open>k_sem_take\<close>, or has returned because the restart
  failed): however many disconnect events set the flag, there is one restart. And in the
  loop the number of advertising starts is one, for the bring-up, plus the number of
  drains that found the flag set.
\<close>

theorem one_restart_for_repeated_disconnects:
  assumes "main_pc (run sch boot) = Loop_take \<or> main_pc (run sch boot) = Loop_test"
    and "cb_pending (run sch boot) = []"
    and "ds \<noteq> []"
    and "4 \<le> length rs"
  shows "calls In_main Bt_le_adv_start
           (run (sch @ deliver (Connected conn 0) @ disconnects ds @ map Main rs) boot) =
           calls In_main Bt_le_adv_start (run sch boot) + 1 \<and>
         \<not> bit (state (run (sch @ deliver (Connected conn 0) @ disconnects ds @ map Main rs) boot))
               STATE_DISCONNECTED \<and>
         main_step r (run (sch @ deliver (Connected conn 0) @ disconnects ds @ map Main rs) boot) =
           None \<and>
         calls In_main Bt_le_adv_start (run sch boot) = drained (run sch boot) + 1"
proof -
  define s where "s = run sch boot"
  have "sem_ok s"
    by (simp add: s_def sem_ok_run pending_ok_boot sem_ok_boot)
  then have w0: "in_loop s"
    using assms(1,2) by (auto simp: in_loop_def sem_ok_def s_def)
  define s1 where "s1 = run (deliver (Connected conn 0)) s"
  have w1: "in_loop s1" and a1: "calls In_main Bt_le_adv_start s1 = calls In_main Bt_le_adv_start s"
    using w0 by (simp_all add: s1_def deliver_connected)
  define s2 where "s2 = run (disconnects ds) s1"
  have w2: "in_loop s2" and g2: "signalled s2"
    and a2: "calls In_main Bt_le_adv_start s2 = calls In_main Bt_le_adv_start s1"
    using deliver_disconnects [of s1 ds Bt_le_adv_start] w1 assms(3) by (simp_all add: s2_def)
  note d = drain_after_signal [OF w2 g2 assms(4), of r]
  have "restart_per_drain s"
    by (simp add: s_def restart_per_drain_run)
  then have g: "calls In_main Bt_le_adv_start s = drained s + 1"
    using assms(1) by (auto simp: restart_per_drain_def s_def)
  have "run (sch @ deliver (Connected conn 0) @ disconnects ds @ map Main rs) boot =
          run (map Main rs) s2"
    by (simp add: s_def s1_def s2_def)
  then show ?thesis
    using d a1 a2 g by (simp add: s_def)
qed

theorem one_restart_for_repeated_disconnects_witness:
  "(main_pc (run (bring_up 0 2 0) boot) = Loop_take \<or>
    main_pc (run (bring_up 0 2 0) boot) = Loop_test) \<and>
   cb_pending (run (bring_up 0 2 0) boot) = [] \<and>
   [(1, 19), (1, 8 :: 8 word)] \<noteq> ([] :: (bt_conn \<times> 8 word) list) \<and>
   4 \<le> length [0, 0, 0, 0, 0 :: int] \<and>
   calls In_main Bt_le_adv_start
     (run (bring_up 0 2 0 @ deliver (Connected 1 0) @ disconnects [(1, 19), (1, 8)]
           @ map Main [0, 0, 0, 0, 0]) boot) =
     calls In_main Bt_le_adv_start (run (bring_up 0 2 0) boot) + 1 \<and>
   \<not> bit (state (run (bring_up 0 2 0 @ deliver (Connected 1 0) @ disconnects [(1, 19), (1, 8)]
                       @ map Main [0, 0, 0, 0, 0]) boot)) STATE_DISCONNECTED \<and>
   main_step 0 (run (bring_up 0 2 0 @ deliver (Connected 1 0) @ disconnects [(1, 19), (1, 8)]
                     @ map Main [0, 0, 0, 0, 0]) boot) = None \<and>
   calls In_main Bt_le_adv_start (run (bring_up 0 2 0) boot) = drained (run (bring_up 0 2 0) boot) + 1"
proof -
  have h1: "main_pc (run (bring_up 0 2 0) boot) = Loop_take \<or>
            main_pc (run (bring_up 0 2 0) boot) = Loop_test" by code_simp
  have h2: "cb_pending (run (bring_up 0 2 0) boot) = []" by code_simp
  have h3: "[(1, 19), (1, 8 :: 8 word)] \<noteq> ([] :: (bt_conn \<times> 8 word) list)" by simp
  have h4: "4 \<le> length [0, 0, 0, 0, 0 :: int]" by simp
  show ?thesis
    using h1 h2 h3 h4 one_restart_for_repeated_disconnects [OF h1 h2 h3 h4, of 1 0]
    by blast
qed

text \<open>
  C8. For every connection and every passkey value: \<open>enter_passkey\<close> answers with
  \<open>bt_conn_auth_passkey_entry\<close> for that connection and the passkey 0, \<open>confirm_passkey\<close>
  answers with \<open>bt_conn_auth_passkey_confirm\<close> for that connection, whatever passkey is
  displayed, and \<open>confirm_pairing\<close> answers with \<open>bt_conn_auth_pairing_confirm\<close> for that
  connection. Each executes its \<open>printk\<close> and that one call, nothing else.
\<close>

theorem pairing_policy:
  "executed_since s (run_stmts In_callback (enter_passkey conn) s) =
     [(In_callback, Printk ''enter_passkey''), (In_callback, Bt_conn_auth_passkey_entry conn 0)] \<and>
   executed_since s (run_stmts In_callback (confirm_passkey conn passkey) s) =
     [(In_callback, Printk ''enter_confirm''), (In_callback, Bt_conn_auth_passkey_confirm conn)] \<and>
   executed_since s (run_stmts In_callback (confirm_pairing conn) s) =
     [(In_callback, Printk ''pairing_confirm''), (In_callback, Bt_conn_auth_pairing_confirm conn)] \<and>
   confirm_passkey conn passkey = confirm_passkey conn passkey'"
proof -
  have "executed_since s (run_stmts In_callback sts s) = map (Pair In_callback) sts" for sts
    by simp
  then show ?thesis
    by (simp add: enter_passkey_def confirm_passkey_def confirm_pairing_def)
qed

text \<open>
  C9. In every state the system reaches from boot, if \<open>main\<close> has returned, it has
  returned 0. The three ways in which it returns all do so with 0: \<open>bt_enable\<close> fails;
  the first \<open>bt_le_adv_start\<close> fails; \<open>bt_le_adv_start\<close> fails when the loop restarts
  advertising after a disconnect.
\<close>

theorem main_returns_zero:
  "(main_pc (run sch boot) = Exited c \<longrightarrow> c = 0) \<and>
   (e \<noteq> 0 \<longrightarrow> main_pc (run [Main 0, Main e] boot) = Exited 0) \<and>
   (e \<noteq> 0 \<longrightarrow> main_pc (run (bring_up u n e) boot) = Exited 0) \<and>
   (e \<noteq> 0 \<longrightarrow>
      main_pc (run (bring_up u n 0 @ deliver (Disconnected conn reason) @ [Main 0, Main 0, Main e])
                 boot) = Exited 0)"
proof (intro conjI impI)
  assume "main_pc (run sch boot) = Exited c"
  then show "c = 0" by (rule run_exit)
next
  assume "e \<noteq> 0"
  then show "main_pc (run [Main 0, Main e] boot) = Exited 0"
    by (simp add: boot_def main_step_def)
next
  assume "e \<noteq> 0"
  then show "main_pc (run (bring_up u n e) boot) = Exited 0"
    by (simp add: bring_up_pc)
next
  assume e: "e \<noteq> 0"
  define s where "s = run (bring_up u n 0) boot"
  have "sem_ok s"
    by (simp add: s_def sem_ok_run pending_ok_boot sem_ok_boot)
  then have w: "in_loop s" and pc: "main_pc s = Loop_take"
    by (simp_all add: in_loop_def sem_ok_def s_def bring_up_pc)
  define t where "t = run (deliver (Disconnected conn reason)) s"
  have "signalled t"
    using w by (simp add: t_def deliver_disconnected)
  moreover have "main_pc t = Loop_take"
    using w pc by (simp add: t_def in_loop_def run_deliver)
  ultimately have v0: "loop_view t = (Loop_take, True, Suc 0, calls In_main Bt_le_adv_start t)"
    by (simp add: loop_view_def signalled_def)
  note v1 = loop_take_step [OF v0, of 0]
  have v2: "loop_view (step (Main 0) (step (Main 0) t)) =
              (Loop_adv, False, 0, calls In_main Bt_le_adv_start t)"
    using loop_test_step [OF v1, of 0] by simp
  have "main_pc (step (Main e) (step (Main 0) (step (Main 0) t))) = Exited 0"
    using loop_adv_step [OF v2, of e] e by (simp add: loop_view_def)
  then show "main_pc (run (bring_up u n 0 @ deliver (Disconnected conn reason)
                           @ [Main 0, Main 0, Main e]) boot) = Exited 0"
    by (simp add: s_def t_def del: step.simps)
qed

theorem main_returns_zero_witness:
  "main_pc (run [Main 0, Main (-5)] boot) = Exited 0 \<and> (0 :: int) = 0 \<and>
   (-5 :: int) \<noteq> 0 \<and>
   main_pc (run (bring_up 0 2 (-5)) boot) = Exited 0 \<and>
   main_pc (run (bring_up 0 2 0 @ deliver (Disconnected 1 19) @ [Main 0, Main 0, Main (-5)])
              boot) = Exited 0"
proof -
  have h: "(-5 :: int) \<noteq> 0" by simp
  have p: "main_pc (run [Main 0, Main (-5)] boot) = Exited 0" by code_simp
  show ?thesis
    using h p main_returns_zero [of "[Main 0, Main (-5)]" 0 "-5" 0 2 1 19]
    by blast
qed

text \<open>
  C10. Once \<open>STATE_CONNECTED\<close> is set in a state the system has reached from boot, it is
  set in every state the system reaches from there, whatever the main thread and the
  callbacks do. A step of the main thread changes no bit of \<open>state\<close> other than
  \<open>STATE_DISCONNECTED\<close>.
\<close>

theorem connected_flag_never_cleared:
  "(bit (state (run sch boot)) STATE_CONNECTED \<longrightarrow>
      bit (state (run (sch @ sch') boot)) STATE_CONNECTED) \<and>
   (main_step r s = Some s' \<and> i \<noteq> STATE_DISCONNECTED \<longrightarrow> bit (state s') i = bit (state s) i)"
proof (intro conjI impI)
  assume "bit (state (run sch boot)) STATE_CONNECTED"
  moreover have "pending_ok (run sch boot)"
    by (simp add: pending_ok_run pending_ok_boot)
  ultimately show "bit (state (run (sch @ sch') boot)) STATE_CONNECTED"
    by (simp add: run_keeps_connected)
next
  assume "main_step r s = Some s' \<and> i \<noteq> STATE_DISCONNECTED"
  then show "bit (state s') i = bit (state s) i"
    using main_step_state [of r s s'] by (auto simp: bit_simps)
qed

theorem connected_flag_never_cleared_witness:
  "bit (state (run (bring_up 0 2 0 @ deliver (Connected 1 0)) boot)) STATE_CONNECTED \<and>
   bit (state (run ((bring_up 0 2 0 @ deliver (Connected 1 0))
                    @ (deliver (Disconnected 1 19) @ [Main 0, Main 0, Main 0])) boot))
       STATE_CONNECTED \<and>
   main_step 0 (run (bring_up 0 2 0 @ deliver (Connected 1 0) @ deliver (Disconnected 1 19)
                     @ [Main 0]) boot) =
     Some (run (bring_up 0 2 0 @ deliver (Connected 1 0) @ deliver (Disconnected 1 19)
                @ [Main 0, Main 0]) boot) \<and>
   STATE_CONNECTED \<noteq> STATE_DISCONNECTED \<and>
   bit (state (run (bring_up 0 2 0 @ deliver (Connected 1 0) @ deliver (Disconnected 1 19)
                    @ [Main 0, Main 0]) boot)) STATE_CONNECTED =
   bit (state (run (bring_up 0 2 0 @ deliver (Connected 1 0) @ deliver (Disconnected 1 19)
                    @ [Main 0]) boot)) STATE_CONNECTED"
proof -
  have h1: "bit (state (run (bring_up 0 2 0 @ deliver (Connected 1 0)) boot)) STATE_CONNECTED"
    by code_simp
  have h2: "main_step 0 (run (bring_up 0 2 0 @ deliver (Connected 1 0) @ deliver (Disconnected 1 19)
                     @ [Main 0]) boot) =
     Some (run (bring_up 0 2 0 @ deliver (Connected 1 0) @ deliver (Disconnected 1 19)
                @ [Main 0, Main 0]) boot)"
    by code_simp
  have h3: "STATE_CONNECTED \<noteq> STATE_DISCONNECTED"
    by (simp add: STATE_CONNECTED_def STATE_DISCONNECTED_def)
  show ?thesis
    using h1 h2 h3
      connected_flag_never_cleared
        [of "bring_up 0 2 0 @ deliver (Connected 1 0)"
            "deliver (Disconnected 1 19) @ [Main 0, Main 0, Main 0]"
            0
            "run (bring_up 0 2 0 @ deliver (Connected 1 0) @ deliver (Disconnected 1 19)
                  @ [Main 0]) boot"
            "run (bring_up 0 2 0 @ deliver (Connected 1 0) @ deliver (Disconnected 1 19)
                  @ [Main 0, Main 0]) boot"
            STATE_CONNECTED]
    by blast
qed

end
